theory Spec2Isabelle
  imports Main "HOL-Library.AList"
begin

section \<open>Values\<close>

text \<open>
  The engine passes around untyped JSON-like data (\<open>unknown\<close> in the TypeScript source):
  \<open>undefined\<close>, \<open>null\<close>, booleans, numbers, strings, arrays and plain objects.  Numbers
  that are data are integers (they are only tested and passed on).  A string is a list of
  code units below 256.  An object is the list of its own properties in
  property order, read at the first matching key; an array is the list of its elements.

  Objects and arrays inherit from \<open>Object.prototype\<close> and \<open>Array.prototype\<close>, so reading a
  member can also give a built-in function or one of the two prototype objects; these are
  values too.
\<close>

datatype builtin_prototype = ObjectPrototype | ArrayPrototype

datatype jv =
    JUndefined
  | JNull
  | JBool bool
  | JNum int
  | JStr string
  | JArr "jv list"
  | JObj "(string \<times> jv) list"
  | JFunction string
  | JPrototype builtin_prototype

text \<open>What a \<open>throw\<close> carries: an \<open>Error\<close> object with its message, or some other value,
  kept as \<open>String(value)\<close>.\<close>

datatype thrown = Error string | TypeError string | NonError string

fun typeof :: "jv \<Rightarrow> string" where
  "typeof JUndefined = ''undefined''"
| "typeof JNull = ''object''"
| "typeof (JBool _) = ''boolean''"
| "typeof (JNum _) = ''number''"
| "typeof (JStr _) = ''string''"
| "typeof (JArr _) = ''object''"
| "typeof (JObj _) = ''object''"
| "typeof (JFunction _) = ''function''"
| "typeof (JPrototype _) = ''object''"

fun truthy :: "jv \<Rightarrow> bool" where
  "truthy JUndefined = False"
| "truthy JNull = False"
| "truthy (JBool b) = b"
| "truthy (JNum n) = (n \<noteq> 0)"
| "truthy (JStr s) = (s \<noteq> [])"
| "truthy (JArr _) = True"
| "truthy (JObj _) = True"
| "truthy (JFunction _) = True"
| "truthy (JPrototype _) = True"

text \<open>\<open>Array.isArray\<close>; \<open>Array.prototype\<close> is itself an (empty) array.\<close>

fun isArray :: "jv \<Rightarrow> bool" where
  "isArray (JArr _) = True"
| "isArray (JPrototype ArrayPrototype) = True"
| "isArray _ = False"

subsection \<open>Decimal numerals\<close>

text \<open>The decimal digit for a number below ten.\<close>

definition digit_char :: "nat \<Rightarrow> char" where
  "digit_char d = ''0123456789'' ! d"

fun string_of_nat :: "nat \<Rightarrow> string" where
  "string_of_nat n =
     (if n < 10 then [digit_char n] else string_of_nat (n div 10) @ [digit_char (n mod 10)])"

declare string_of_nat.simps [simp del]

definition is_digit :: "char \<Rightarrow> bool" where
  "is_digit c = ((48::nat) \<le> of_char c \<and> of_char c \<le> (57::nat))"

definition digit_val :: "char \<Rightarrow> nat" where
  "digit_val c = of_char c - 48"

text \<open>A property name is an array index when it is the canonical decimal numeral of a
  natural number: digits only, no sign, no leading zero.\<close>

definition array_index :: "string \<Rightarrow> nat option" where
  "array_index s =
     (if s \<noteq> [] \<and> list_all is_digit s \<and> (length s = 1 \<or> hd s \<noteq> CHR ''0'')
      then Some (foldl (\<lambda>acc c. 10 * acc + digit_val c) 0 s)
      else None)"

subsection \<open>Member access\<close>

text \<open>The methods of \<open>Object.prototype\<close> and of \<open>Array.prototype\<close> (ECMAScript 2023).  The
  two prototypes have a \<open>constructor\<close> as well, \<open>Array.prototype\<close> has a \<open>length\<close>, and
  \<open>Object.prototype\<close> has the accessor \<open>__proto__\<close>, which gives the prototype of the
  object it is read from.\<close>

definition object_prototype_methods :: "string list" where
  "object_prototype_methods =
     [''__defineGetter__'', ''__defineSetter__'', ''hasOwnProperty'', ''__lookupGetter__'',
      ''__lookupSetter__'', ''isPrototypeOf'', ''propertyIsEnumerable'', ''toString'',
      ''valueOf'', ''toLocaleString'']"

definition array_prototype_methods :: "string list" where
  "array_prototype_methods =
     [''at'', ''concat'', ''copyWithin'', ''fill'', ''find'', ''findIndex'', ''findLast'',
      ''findLastIndex'', ''lastIndexOf'', ''pop'', ''push'', ''reverse'', ''shift'', ''unshift'',
      ''slice'', ''sort'', ''splice'', ''includes'', ''indexOf'', ''join'', ''keys'', ''entries'',
      ''values'', ''forEach'', ''filter'', ''flat'', ''flatMap'', ''map'', ''every'', ''some'',
      ''reduce'', ''reduceRight'', ''toLocaleString'', ''toString'', ''toReversed'', ''toSorted'',
      ''toSpliced'', ''with'']"

text \<open>Reading \<open>k\<close> from \<open>Object.prototype\<close> on behalf of an object whose prototype is
  \<open>proto\<close>.\<close>

definition object_prototype_get :: "jv \<Rightarrow> string \<Rightarrow> jv" where
  "object_prototype_get proto k =
     (if k = ''__proto__'' then proto
      else if k = ''constructor'' then JFunction ''Object''
      else if k \<in> set object_prototype_methods then JFunction (''Object.prototype.'' @ k)
      else JUndefined)"

text \<open>Reading \<open>k\<close> from \<open>Array.prototype\<close> and, if it is not there, from
  \<open>Object.prototype\<close> behind it.\<close>

definition array_prototype_get :: "jv \<Rightarrow> string \<Rightarrow> jv" where
  "array_prototype_get proto k =
     (if k = ''constructor'' then JFunction ''Array''
      else if k \<in> set array_prototype_methods then JFunction (''Array.prototype.'' @ k)
      else object_prototype_get proto k)"

text \<open>Own properties first, then the prototype chain.\<close>

definition obj_get :: "(string \<times> jv) list \<Rightarrow> string \<Rightarrow> jv" where
  "obj_get kvs k =
     (case map_of kvs k of
        Some v \<Rightarrow> v
      | None \<Rightarrow> object_prototype_get (JPrototype ObjectPrototype) k)"

definition arr_get :: "jv list \<Rightarrow> string \<Rightarrow> jv" where
  "arr_get xs k =
     (if k = ''length'' then JNum (int (length xs))
      else case array_index k of
             None \<Rightarrow> array_prototype_get (JPrototype ArrayPrototype) k
           | Some i \<Rightarrow> if i < length xs then xs ! i else JUndefined)"

text \<open>\<open>current[part]\<close> for the values the resolver reads members of: those whose \<open>typeof\<close> is
  \<open>"object"\<close>, \<open>null\<close> apart.  The prototype of \<open>Object.prototype\<close> is \<open>null\<close>, that of
  \<open>Array.prototype\<close> is \<open>Object.prototype\<close>.\<close>

fun member :: "jv \<Rightarrow> string \<Rightarrow> jv" where
  "member (JObj kvs) k = obj_get kvs k"
| "member (JArr xs) k = arr_get xs k"
| "member (JPrototype ObjectPrototype) k = object_prototype_get JNull k"
| "member (JPrototype ArrayPrototype) k =
     (if k = ''length'' then JNum 0 else array_prototype_get (JPrototype ObjectPrototype) k)"

section \<open>Template resolver (engine/templates.ts)\<close>

text \<open>\<open>path.split(".")\<close>: the empty string splits into one empty part.\<close>

fun split_dot :: "string \<Rightarrow> string list" where
  "split_dot [] = [[]]"
| "split_dot (c # cs) =
     (if c = CHR ''.'' then [] # split_dot cs
      else case split_dot cs of
             [] \<Rightarrow> [[c]]
           | p # ps \<Rightarrow> (c # p) # ps)"

text \<open>The loop of \<open>getNestedValue\<close> over the parts, with \<open>current\<close> as its variable.  The
  two guards keep every member access away from \<open>null\<close>, \<open>undefined\<close> and primitive values,
  and no property of the values modelled here has a getter that throws: the loop has no
  failing branch.  Its result is typed as that of \<open>resolveTemplate\<close>, which the runners call
  inside \<open>try\<close> blocks.\<close>

fun getNestedValue_loop :: "jv \<Rightarrow> string list \<Rightarrow> thrown + jv" where
  "getNestedValue_loop current [] = Inr current"
| "getNestedValue_loop current (part # parts) =
     (if current = JNull \<or> current = JUndefined then Inr JUndefined
      else if typeof current = ''object'' then getNestedValue_loop (member current part) parts
      else Inr JUndefined)"

definition getNestedValue :: "jv \<Rightarrow> string \<Rightarrow> thrown + jv" where
  "getNestedValue obj path = getNestedValue_loop obj (split_dot path)"

definition startsWith :: "string \<Rightarrow> string \<Rightarrow> bool" where
  "startsWith s p = (take (length p) s = p)"

definition endsWith :: "string \<Rightarrow> string \<Rightarrow> bool" where
  "endsWith s p = (length p \<le> length s \<and> drop (length s - length p) s = p)"

text \<open>\<open>s.slice(2, -2)\<close>: from index 2 up to two characters before the end, empty when
  that range is empty.\<close>

definition slice_2_m2 :: "string \<Rightarrow> string" where
  "slice_2_m2 s = take (length s - 4) (drop 2 s)"

text \<open>The white space and line terminators that \<open>String.prototype.trim\<close> strips, among the
  code units below 256: tab, line feed, vertical tab, form feed, carriage return, space
  and no-break space.\<close>

definition is_space :: "char \<Rightarrow> bool" where
  "is_space c = (c \<in> set [CHR 0x09, CHR 0x0A, CHR 0x0B, CHR 0x0C, CHR 0x0D, CHR 0x20, CHR 0xA0])"

definition trim :: "string \<Rightarrow> string" where
  "trim s = rev (dropWhile is_space (rev (dropWhile is_space s)))"

definition is_template :: "string \<Rightarrow> bool" where
  "is_template s = (startsWith s ''{{'' \<and> endsWith s ''}}'')"

definition resolveTemplate :: "string \<Rightarrow> jv \<Rightarrow> thrown + jv" where
  "resolveTemplate template ctx =
     (if startsWith template ''{{'' \<and> endsWith template ''}}''
      then getNestedValue ctx (trim (slice_2_m2 template))
      else Inr (JStr template))"

text \<open>\<open>resolved[key] = value\<close> on the fresh object \<open>resolved\<close>.  The key \<open>__proto__\<close> is
  not stored: the assignment reaches the setter inherited from \<open>Object.prototype\<close>, which
  replaces the prototype of \<open>resolved\<close> when the value is an object or \<open>null\<close> and does
  nothing otherwise.  Objects are their own properties here, which is also all that a
  backend receives once the payload is serialised.\<close>

definition assign :: "string \<Rightarrow> jv \<Rightarrow> (string \<times> jv) list \<Rightarrow> (string \<times> jv) list" where
  "assign key v resolved = (if key = ''__proto__'' then resolved else AList.update key v resolved)"

text \<open>\<open>resolveTemplates\<close>: the loop over \<open>Object.entries(input)\<close>, writing into a fresh
  object.  The values are typed as strings in the source but checked at run time
  (\<open>typeof value === "string"\<close>), so they are values here.\<close>

fun resolveTemplates_loop ::
  "(string \<times> jv) list \<Rightarrow> jv \<Rightarrow> (string \<times> jv) list \<Rightarrow> thrown + (string \<times> jv) list" where
  "resolveTemplates_loop [] ctx resolved = Inr resolved"
| "resolveTemplates_loop ((key, val) # rest) ctx resolved =
     (case val of
        JStr s \<Rightarrow>
          (if startsWith s ''{{'' \<and> endsWith s ''}}'' then
             (case getNestedValue ctx (trim (slice_2_m2 s)) of
                Inl e \<Rightarrow> Inl e
              | Inr v \<Rightarrow> resolveTemplates_loop rest ctx (assign key v resolved))
           else resolveTemplates_loop rest ctx (assign key val resolved))
      | _ \<Rightarrow> resolveTemplates_loop rest ctx (assign key val resolved))"

definition resolveTemplates :: "(string \<times> jv) list \<Rightarrow> jv \<Rightarrow> thrown + (string \<times> jv) list" where
  "resolveTemplates input ctx = resolveTemplates_loop input ctx []"

subsection \<open>The resolver as the specification words it\<close>

text \<open>The names an object or an array inherits, with what they stand for.\<close>

definition inherited_by_objects :: "jv \<Rightarrow> string \<Rightarrow> jv option" where
  "inherited_by_objects proto k =
     (if k = ''__proto__'' then Some proto
      else if k = ''constructor'' then Some (JFunction ''Object'')
      else if k \<in> set object_prototype_methods then Some (JFunction (''Object.prototype.'' @ k))
      else None)"

definition inherited_by_arrays :: "jv \<Rightarrow> string \<Rightarrow> jv option" where
  "inherited_by_arrays proto k =
     (if k = ''constructor'' then Some (JFunction ''Array'')
      else if k \<in> set array_prototype_methods then Some (JFunction (''Array.prototype.'' @ k))
      else inherited_by_objects proto k)"

text \<open>The context seen as a nested mapping: an object maps its keys, an array maps the
  numerals of its indices (and \<open>length\<close>), both map the names they inherit as well;
  nothing else has members.\<close>

fun as_mapping :: "jv \<Rightarrow> string \<Rightarrow> jv option" where
  "as_mapping (JObj kvs) k =
     (case map_of kvs k of
        Some v \<Rightarrow> Some v
      | None \<Rightarrow> inherited_by_objects (JPrototype ObjectPrototype) k)"
| "as_mapping (JArr xs) k =
     (if k = ''length'' then Some (JNum (int (length xs)))
      else case array_index k of
             None \<Rightarrow> inherited_by_arrays (JPrototype ArrayPrototype) k
           | Some i \<Rightarrow> if i < length xs then Some (xs ! i) else None)"
| "as_mapping (JPrototype ObjectPrototype) k = inherited_by_objects JNull k"
| "as_mapping (JPrototype ArrayPrototype) k =
     (if k = ''length'' then Some (JNum 0)
      else inherited_by_arrays (JPrototype ObjectPrototype) k)"
| "as_mapping _ k = None"

text \<open>The value at a path: the absent value at the first missing or non-object segment.\<close>

fun value_at :: "jv \<Rightarrow> string list \<Rightarrow> jv" where
  "value_at v [] = v"
| "value_at v (seg # segs) =
     (case as_mapping v seg of
        None \<Rightarrow> JUndefined
      | Some w \<Rightarrow> value_at w segs)"


section \<open>Numbers\<close>

text \<open>
  JavaScript numbers are IEEE 754 doubles.  Where the engine computes with numbers (the
  progress percentage, the timeout in milliseconds) the model computes with doubles too:
  a finite double that is not negative is written \<open>(m, e)\<close> and stands for \<open>m / 2^e\<close>.
  Arithmetic rounds the exact result to the nearest double, ties to the even significand.
  The values that occur are below \<open>2^53\<close> and far above the subnormal range, so a
  significand of 53 bits is the only bound that matters.
\<close>

type_synonym double = "nat \<times> nat"

text \<open>\<open>a / b\<close> rounded to the nearest natural number, ties to even.\<close>

definition rne :: "nat \<Rightarrow> nat \<Rightarrow> nat" where
  "rne a b =
     (if 2 * (a mod b) < b then a div b
      else if b < 2 * (a mod b) then a div b + 1
      else if even (a div b) then a div b
      else a div b + 1)"

text \<open>The least exponent \<open>e\<close> from \<open>e0\<close> on with \<open>2^52 \<le> (a / b) \<times> 2^e\<close>: scaled by it, the
  quotient has a significand of 53 bits.\<close>

function binade :: "nat \<Rightarrow> nat \<Rightarrow> nat \<Rightarrow> nat" where
  "binade a b e = (if a = 0 \<or> 2 ^ 52 * b \<le> a * 2 ^ e then e else binade a b (Suc e))"
  by pat_completeness auto
termination
proof (relation "measure (\<lambda>(a, b, e). 2 ^ 52 * b - a * 2 ^ e)")
  show "wf (measure (\<lambda>(a, b, e). 2 ^ 52 * b - a * 2 ^ e))" by simp
next
  fix a b e :: nat
  assume "\<not> (a = 0 \<or> 2 ^ 52 * b \<le> a * 2 ^ e)"
  then have a: "0 < a" and lt: "a * 2 ^ e < 2 ^ 52 * b" by auto
  have "a * 2 ^ e < a * 2 ^ Suc e" using a by simp
  with lt have "2 ^ 52 * b - a * 2 ^ Suc e < 2 ^ 52 * b - a * 2 ^ e"
    by (intro diff_less_mono2)
  then show "((a, b, Suc e), (a, b, e)) \<in> measure (\<lambda>(a, b, e). 2 ^ 52 * b - a * 2 ^ e)"
    by simp
qed

declare binade.simps [simp del]

text \<open>The double nearest to the fraction \<open>a / b\<close>.\<close>

definition to_double :: "nat \<Rightarrow> nat \<Rightarrow> double" where
  "to_double a b = (if a = 0 then (0, 0) else (rne (a * 2 ^ binade a b 0) b, binade a b 0))"

text \<open>\<open>k / n\<close> for two counts; \<open>x * c\<close> for a double and a whole number.\<close>

definition js_divide :: "nat \<Rightarrow> nat \<Rightarrow> double" where
  "js_divide k n = to_double k n"

definition js_times :: "double \<Rightarrow> nat \<Rightarrow> double" where
  "js_times x c = to_double (fst x * c) (2 ^ snd x)"

text \<open>\<open>Math.round\<close>: the nearest integer, a tie going up.\<close>

definition Math_round :: "double \<Rightarrow> nat" where
  "Math_round x = (2 * fst x + 2 ^ snd x) div (2 * 2 ^ snd x)"

text \<open>The order of the values of two doubles.\<close>

definition dle :: "double \<Rightarrow> double \<Rightarrow> bool" where
  "dle x y = (fst x * 2 ^ snd y \<le> fst y * 2 ^ snd x)"

subsection \<open>Number to string\<close>

text \<open>\<open>Number::toString\<close> for a double that is not an integer: the decimal with the fewest
  digits that reads back as the same double, the nearest to it if there are two.  \<open>j\<close>
  counts the digits after the decimal point; a double \<open>m / 2^e\<close> is itself a decimal with
  \<open>e\<close> of them, so the search ends there at the latest.\<close>

definition reads_back :: "double \<Rightarrow> nat \<Rightarrow> nat \<Rightarrow> bool" where
  "reads_back x s j = (fst (to_double s (10 ^ j)) * 2 ^ snd x = fst x * 2 ^ snd (to_double s (10 ^ j)))"

definition floor_scaled :: "double \<Rightarrow> nat \<Rightarrow> nat" where
  "floor_scaled x j = (fst x * 10 ^ j) div 2 ^ snd x"

definition decimal_places :: "double \<Rightarrow> nat" where
  "decimal_places x =
     (case find (\<lambda>j. reads_back x (floor_scaled x j) j \<or> reads_back x (floor_scaled x j + 1) j)
             [1..<Suc (snd x)] of
        Some j \<Rightarrow> j
      | None \<Rightarrow> snd x)"

definition shortest_digits :: "double \<Rightarrow> nat \<Rightarrow> nat" where
  "shortest_digits x j =
     (let lo = floor_scaled x j in
      if \<not> reads_back x (lo + 1) j then lo
      else if \<not> reads_back x lo j then lo + 1
      else if 2 * (fst x * 10 ^ j) < (2 * lo + 1) * 2 ^ snd x then lo
      else if (2 * lo + 1) * 2 ^ snd x < 2 * (fst x * 10 ^ j) then lo + 1
      else if even lo then lo
      else lo + 1)"

definition js_number_string :: "double \<Rightarrow> string" where
  "js_number_string x =
     (if 2 ^ snd x dvd fst x then string_of_nat (fst x div 2 ^ snd x)
      else
        (let j = decimal_places x;
             ds = string_of_nat (shortest_digits x j);
             k = length ds
         in if j < k then take (k - j) ds @ ''.'' @ drop (k - j) ds
            else if j - k < 6 then ''0.'' @ replicate (j - k) CHR ''0'' @ ds
            else (if k = 1 then ds else take 1 ds @ ''.'' @ drop 1 ds)
                 @ ''e-'' @ string_of_nat (j - k + 1)))"

subsection \<open>Timers\<close>

text \<open>\<open>setTimeout(f, d)\<close>: a delay below one millisecond or above \<open>2^31 - 1\<close> becomes one
  millisecond.\<close>

definition timer_delay :: "double \<Rightarrow> double" where
  "timer_delay d = (if dle (1, 0) d \<and> dle d (2147483647, 0) then d else (1, 0))"

text \<open>Something that happens \<open>ms\<close> milliseconds after a timer was set happens before the
  timer fires when \<open>ms\<close> is below the delay; the timer fires at the first whole millisecond
  that is not.\<close>

definition before_timer :: "nat \<Rightarrow> double \<Rightarrow> bool" where
  "before_timer ms d = (ms * 2 ^ snd d < fst d)"

definition fires_at :: "double \<Rightarrow> nat" where
  "fires_at d = (fst d + 2 ^ snd d - 1) div 2 ^ snd d"

section \<open>Data model (core/types)\<close>

text \<open>Field names follow the source; a prefix is added where two interfaces share a field
  name (\<open>s_\<close> for Step, \<open>t_\<close> for Task, \<open>r_\<close> for ResourceRequirements).  Counts and
  durations are whole numbers and delays are whole milliseconds; a \<open>timeout\<close> is a number of
  seconds that may have a fraction (the tests use \<open>0.01\<close>), so it is a double.\<close>

datatype gpu_requirement = GpuFlag bool | GpuModel string

record ResourceRequirements =
  r_gpu :: "gpu_requirement option"
  r_vram :: "nat option"
  r_ram :: "nat option"
  r_cpu :: "nat option"
  r_timeout :: "double option"

record GpuInfo =
  gpu_name :: string
  gpu_vram :: nat
  available :: bool

record ResourcePool =
  gpus :: "GpuInfo list"
  ram :: "nat \<times> nat"
  vram :: "nat \<times> nat"

datatype backoff_strategy = Fixed | Exponential

record RetryConfig =
  attempts :: "int option"
  backoff :: "backoff_strategy option"
  delay :: "int option"
  maxDelay :: "int option"

record Step =
  s_id :: "string option"
  task :: string
  input :: "(string \<times> jv) list option"
  dependsOn :: "string list option"
  forEach :: "string option"
  forEachConcurrency :: "nat option"
  runWhen :: "string option"
  s_timeout :: "double option"
  optional :: "bool option"
  s_resources :: "ResourceRequirements option"
  s_retry :: "RetryConfig option"

record Task =
  t_type :: string
  backend :: "string option"
  payload :: "(string \<times> jv) list"
  steps :: "Step list option"
  resources :: "ResourceRequirements option"
  retry :: "RetryConfig option"

text \<open>What awaiting a promise gives: the value it resolves to or what it rejects with,
  and the milliseconds that passed meanwhile.\<close>

type_synonym settled = "(thrown + jv) \<times> nat"

datatype health = Healthy bool | HealthThrows thrown

text \<open>A backend.  \<open>execute\<close> may answer differently from one call to the next (a flaky
  service), so it takes the number of the attempt as well as the task.\<close>

record Backend =
  name :: string
  execute :: "Task \<Rightarrow> nat \<Rightarrow> settled"
  isHealthy :: health
  getResources :: "(thrown + ResourcePool) option"

definition quoted :: "string \<Rightarrow> string" where
  "quoted s = CHR 0x22 # s @ [CHR 0x22]"

section \<open>Backend registry (core registry)\<close>

text \<open>The registry is a JavaScript \<open>Map\<close>: insertion-ordered, and setting an existing key
  keeps its position.  It is passed explicitly.\<close>

type_synonym registry = "(string \<times> Backend) list"

definition registerBackend :: "Backend \<Rightarrow> registry \<Rightarrow> registry" where
  "registerBackend b backends = AList.update (name b) b backends"

definition unregisterBackend :: "string \<Rightarrow> registry \<Rightarrow> bool \<times> registry" where
  "unregisterBackend n backends = (n \<in> fst ` set backends, AList.delete n backends)"

definition getBackend :: "string \<Rightarrow> registry \<Rightarrow> Backend option" where
  "getBackend n backends = map_of backends n"

definition getAllBackends :: "registry \<Rightarrow> Backend list" where
  "getAllBackends backends = map snd backends"

text \<open>The first loop of the auto branch: collect the healthy backends; a health check that
  throws is caught and the backend skipped.\<close>

fun collect_healthy :: "Backend list \<Rightarrow> Backend list \<Rightarrow> Backend list" where
  "collect_healthy [] healthyBackends = healthyBackends"
| "collect_healthy (b # bs) healthyBackends =
     (case isHealthy b of
        Healthy True \<Rightarrow> collect_healthy bs (healthyBackends @ [b])
      | Healthy False \<Rightarrow> collect_healthy bs healthyBackends
      | HealthThrows _ \<Rightarrow> collect_healthy bs healthyBackends)"

text \<open>The second loop: the first healthy backend reporting an available GPU.  A rejected
  \<open>getResources()\<close> is not caught.\<close>

fun gpu_scan :: "Backend list \<Rightarrow> thrown + Backend option" where
  "gpu_scan [] = Inr None"
| "gpu_scan (b # bs) =
     (case getResources b of
        None \<Rightarrow> gpu_scan bs
      | Some (Inl e) \<Rightarrow> Inl e
      | Some (Inr res) \<Rightarrow> if list_ex available (gpus res) then Inr (Some b) else gpu_scan bs)"

text \<open>\<open>task.resources?.gpu\<close> as a condition: \<open>true\<close> or a non-empty model name.\<close>

definition requires_gpu :: "Task \<Rightarrow> bool" where
  "requires_gpu t =
     (case resources t of
        None \<Rightarrow> False
      | Some r \<Rightarrow>
          (case r_gpu r of
             None \<Rightarrow> False
           | Some (GpuFlag f) \<Rightarrow> f
           | Some (GpuModel m) \<Rightarrow> m \<noteq> []))"

definition selectBackend :: "registry \<Rightarrow> Task \<Rightarrow> thrown + Backend" where
  "selectBackend backends t =
     (if backend t \<noteq> None \<and> backend t \<noteq> Some [] \<and> backend t \<noteq> Some ''auto'' then
        (case map_of backends (the (backend t)) of
           None \<Rightarrow> Inl (Error (''Backend '' @ quoted (the (backend t)) @ '' not registered''))
         | Some b \<Rightarrow>
             (case isHealthy b of
                HealthThrows e \<Rightarrow> Inl e
              | Healthy False \<Rightarrow>
                  Inl (Error (''Backend '' @ quoted (the (backend t)) @ '' is not healthy''))
              | Healthy True \<Rightarrow> Inr b))
      else
        (let healthyBackends = collect_healthy (map snd backends) [] in
         if length healthyBackends = 0 then Inl (Error ''No healthy backend available'')
         else if requires_gpu t then
           (case gpu_scan healthyBackends of
              Inl e \<Rightarrow> Inl e
            | Inr (Some b) \<Rightarrow> Inr b
            | Inr None \<Rightarrow> Inr (hd healthyBackends))
         else Inr (hd healthyBackends)))"

section \<open>Execution helpers (engine/execution.ts)\<close>

text \<open>\<open>withTimeout\<close> races the operation against a timer set when the operation has
  been started: the operation wins when it settles before the timer fires.  The operation
  is not cancelled when it loses.\<close>

definition withTimeout :: "settled \<Rightarrow> double \<Rightarrow> string \<Rightarrow> settled" where
  "withTimeout promise timeoutMs label =
     (if before_timer (snd promise) (timer_delay timeoutMs) then promise
      else (Inl (Error (quoted label @ '' timed out after '' @ js_number_string timeoutMs @ ''ms'')),
            fires_at (timer_delay timeoutMs)))"

text \<open>What \<open>executeWithRetry\<close> does, in order: a report to the observer (attempt, maximum),
  a call of the executor (with the milliseconds it took), a sleep.\<close>

datatype retry_event = OnRetry int int | Call nat | Sleep int

text \<open>\<open>error instanceof Error ? error : new Error(String(error))\<close>\<close>

fun as_Error :: "thrown \<Rightarrow> thrown" where
  "as_Error (NonError s) = Error s"
| "as_Error e = e"

text \<open>The \<open>for\<close> loop of \<open>executeWithRetry\<close>; \<open>maxAttempts\<close> is \<open>retry.attempts\<close>, \<open>executor k\<close> is
  the outcome of the \<open>k\<close>-th call.\<close>

function retry_loop ::
  "RetryConfig \<Rightarrow> int \<Rightarrow> int \<Rightarrow> (nat \<Rightarrow> settled) \<Rightarrow> int \<Rightarrow> thrown option \<Rightarrow>
   retry_event list \<Rightarrow> (thrown + jv) \<times> retry_event list" where
  "retry_loop rc maxAttempts dly executor attempt lastError tr =
     (if attempt \<le> maxAttempts then
        (case executor (nat attempt) of
           (Inr v, ms) \<Rightarrow> (Inr v, tr @ [OnRetry attempt maxAttempts, Call ms])
         | (Inl e, ms) \<Rightarrow>
             (if attempt < maxAttempts then
                retry_loop rc maxAttempts dly executor (attempt + 1) (Some (as_Error e))
                  (tr @ [OnRetry attempt maxAttempts, Call ms,
                         Sleep (if backoff rc = Some Exponential
                                then dly * 2 ^ nat (attempt - 1) else dly)])
              else
                retry_loop rc maxAttempts dly executor (attempt + 1) (Some (as_Error e))
                  (tr @ [OnRetry attempt maxAttempts, Call ms])))
      else
        (case lastError of
           None \<Rightarrow> (Inl (NonError ''undefined''), tr)
         | Some e \<Rightarrow> (Inl e, tr)))"
  by pat_completeness auto
termination
  by (relation "measure (\<lambda>(rc, maxAttempts, dly, executor, attempt, lastError, tr). nat (maxAttempts + 1 - attempt))")
     auto

declare retry_loop.simps [simp del]

definition executeWithRetry ::
  "Task \<Rightarrow> (nat \<Rightarrow> settled) \<Rightarrow> (thrown + jv) \<times> retry_event list" where
  "executeWithRetry t executor =
     (case retry t of
        None \<Rightarrow> (fst (executor 1), [Call (snd (executor 1))])
      | Some rc \<Rightarrow>
          (if attempts rc = None \<or> attempts rc = Some 0 \<or> the (attempts rc) \<le> 1
           then (fst (executor 1), [Call (snd (executor 1))])
           else retry_loop rc (the (attempts rc))
                  (if delay rc = None \<or> delay rc = Some 0 then 1000 else the (delay rc))
                  executor 1 None []))"

text \<open>Milliseconds a trace takes; a timer with a negative delay fires at once.\<close>

fun event_ms :: "retry_event \<Rightarrow> nat" where
  "event_ms (OnRetry _ _) = 0"
| "event_ms (Call ms) = ms"
| "event_ms (Sleep d) = nat d"

definition elapsed :: "retry_event list \<Rightarrow> nat" where
  "elapsed tr = sum_list (map event_ms tr)"

text \<open>The last attempt reported to the observer (what the runners store in
  \<open>status.retryAttempt\<close>).\<close>

fun last_attempt :: "retry_event list \<Rightarrow> int option" where
  "last_attempt [] = None"
| "last_attempt (OnRetry a _ # tr) = (case last_attempt tr of None \<Rightarrow> Some a | Some b \<Rightarrow> Some b)"
| "last_attempt (_ # tr) = last_attempt tr"

text \<open>The last attempt reported before a timer of delay \<open>d\<close> fires, \<open>clock\<close> being the
  milliseconds that have passed when the trace begins.\<close>

fun attempt_before :: "double \<Rightarrow> nat \<Rightarrow> retry_event list \<Rightarrow> int option" where
  "attempt_before d clock [] = None"
| "attempt_before d clock (OnRetry a n # tr) =
     (if before_timer clock d
      then (case attempt_before d clock tr of None \<Rightarrow> Some a | Some b \<Rightarrow> Some b)
      else None)"
| "attempt_before d clock (Call ms # tr) = attempt_before d (clock + ms) tr"
| "attempt_before d clock (Sleep k # tr) = attempt_before d (clock + nat k) tr"

subsection \<open>The selection policy as the specification words it\<close>

text \<open>The healthy backends in registration order: a backend whose health check returns
  false or throws is left out.\<close>

definition healthy_in_order :: "registry \<Rightarrow> Backend list" where
  "healthy_in_order backends = filter (\<lambda>b. isHealthy b = Healthy True) (map snd backends)"

definition reports_available_gpu :: "Backend \<Rightarrow> bool" where
  "reports_available_gpu b =
     (case getResources b of
        Some (Inr res) \<Rightarrow> list_ex available (gpus res)
      | _ \<Rightarrow> False)"


subsection \<open>The retry loop as the specification words it\<close>

definition base_delay :: "RetryConfig \<Rightarrow> int" where
  "base_delay rc = (case delay rc of None \<Rightarrow> 1000 | Some d \<Rightarrow> if d = 0 then 1000 else d)"

text \<open>The base delay for a fixed backoff, \<open>delay \<times> 2^(attempt-1)\<close> for an exponential one.\<close>

definition backoff_delay :: "RetryConfig \<Rightarrow> nat \<Rightarrow> int" where
  "backoff_delay rc a =
     (if backoff rc = Some Exponential then base_delay rc * 2 ^ (a - 1) else base_delay rc)"

text \<open>A failed attempt that is not the last: the observer is told the attempt number, the
  executor runs, the loop sleeps the backoff delay.\<close>

definition failed_round :: "RetryConfig \<Rightarrow> nat \<Rightarrow> (nat \<Rightarrow> settled) \<Rightarrow> nat \<Rightarrow> retry_event list" where
  "failed_round rc n executor a =
     [OnRetry (int a) (int n), Call (snd (executor a)), Sleep (backoff_delay rc a)]"

text \<open>The attempt that ends the loop: the observer is told, the executor runs.\<close>

definition final_round :: "nat \<Rightarrow> (nat \<Rightarrow> settled) \<Rightarrow> nat \<Rightarrow> retry_event list" where
  "final_round n executor a = [OnRetry (int a) (int n), Call (snd (executor a))]"

definition fails :: "(nat \<Rightarrow> settled) \<Rightarrow> nat \<Rightarrow> bool" where
  "fails executor a = isl (fst (executor a))"

section \<open>Pipeline results (engine/dispatcher.ts, types)\<close>

datatype step_state = Pending | Running | Completed | Failed | Skipped

text \<open>Times are milliseconds on the engine's clock.  The clock advances only while the
  engine awaits a backend or sleeps; bookkeeping takes no time.\<close>

record StepStatus =
  st_id :: string
  st_task :: string
  status :: step_state
  startedAt :: "nat option"
  completedAt :: "nat option"
  duration :: "int option"
  error :: "string option"
  result :: "jv option"
  retryAttempt :: "int option"

record PipelineResult =
  pr_steps :: "jv list"
  stepResults :: "(string \<times> jv) list"
  stepStatus :: "StepStatus list"
  finalResult :: jv
  totalDuration :: int
  pr_parallelGroups :: "string list list"

text \<open>What a call of a runner leaves behind: how its promise settled and the values it
  passed to the progress callback, in order.\<close>

record 'a run =
  outcome :: "thrown + 'a"
  progress_calls :: "int list"

subsection \<open>Helpers shared by both runners\<close>

text \<open>\<open>Math.round((k / n) * 100)\<close> for two counts, computed in doubles as the source does:
  the quotient is rounded, then the product, then \<open>Math.round\<close> takes the nearest integer
  (23 of 40 gives 57, not 58).  \<open>n\<close> is the number of declared steps, which is not zero
  where a runner reports progress.\<close>

definition round_percent :: "nat \<Rightarrow> nat \<Rightarrow> int" where
  "round_percent k n = int (Math_round (js_times (js_divide k n) 100))"

text \<open>\<open>error instanceof Error ? error.message : String(error)\<close>\<close>

fun errorMsg :: "thrown \<Rightarrow> string" where
  "errorMsg (Error m) = m"
| "errorMsg (TypeError m) = m"
| "errorMsg (NonError s) = s"

text \<open>\<open>a || b\<close> on optional objects, and on optional numbers (where 0 is falsy too).\<close>

definition or_else :: "'a option \<Rightarrow> 'a option \<Rightarrow> 'a option" where
  "or_else a b = (case a of Some x \<Rightarrow> Some x | None \<Rightarrow> b)"

definition num_or_else :: "double option \<Rightarrow> double option \<Rightarrow> double option" where
  "num_or_else a b = (case a of Some x \<Rightarrow> if fst x \<noteq> 0 then Some x else b | None \<Rightarrow> b)"

definition is_set :: "string option \<Rightarrow> bool" where
  "is_set s = (case s of Some x \<Rightarrow> x \<noteq> [] | None \<Rightarrow> False)"

definition is_optional :: "Step \<Rightarrow> bool" where
  "is_optional step = (optional step = Some True)"

definition skipped_on_demand :: jv where
  "skipped_on_demand = JObj [(''skipped'', JBool True), (''reason'', JStr ''on-demand'')]"

definition skipped_condition :: "string \<Rightarrow> jv" where
  "skipped_condition rw =
     JObj [(''skipped'', JBool True), (''reason'', JStr ''condition-false''), (''condition'', JStr rw)]"

definition skipped_error :: "string \<Rightarrow> jv" where
  "skipped_error msg = JObj [(''error'', JStr msg), (''skipped'', JBool True)]"

text \<open>The sub-task built for a step (or for one item of a \<open>forEach\<close>).\<close>

definition stepTask :: "Task \<Rightarrow> Step \<Rightarrow> (string \<times> jv) list \<Rightarrow> Task" where
  "stepTask t step resolvedInput =
     \<lparr>t_type = task step, backend = backend t, payload = resolvedInput, steps = None,
      resources = or_else (s_resources step) (resources t),
      retry = or_else (s_retry step) (retry t)\<rparr>"

text \<open>\<open>step.timeout || task.resources?.timeout\<close>, used as a condition afterwards: a
  timeout of zero counts as none.\<close>

definition timeoutSeconds :: "Task \<Rightarrow> Step \<Rightarrow> double option" where
  "timeoutSeconds t step =
     (case num_or_else (s_timeout step) (case resources t of None \<Rightarrow> None | Some r \<Rightarrow> r_timeout r) of
        Some x \<Rightarrow> if fst x \<noteq> 0 then Some x else None
      | None \<Rightarrow> None)"

text \<open>\<open>executeBackend\<close> / \<open>executeItem\<close>: select a backend, then execute with retry.  The
  second component is the trace of the retry loop, whose observer writes each attempt
  into \<open>status.retryAttempt\<close>.\<close>

definition executeBackend :: "registry \<Rightarrow> Task \<Rightarrow> settled \<times> retry_event list" where
  "executeBackend backends st =
     (case selectBackend backends st of
        Inl e \<Rightarrow> ((Inl e, 0), [])
      | Inr b \<Rightarrow>
          (case executeWithRetry st (execute b st) of
             (r, tr) \<Rightarrow> ((r, elapsed tr), tr)))"

text \<open>The call with its timeout, \<open>timeoutSeconds * 1000\<close> milliseconds.  The second component
  is what \<open>status.retryAttempt\<close> holds when the awaited promise settles: under a timeout,
  the last attempt that began before the timer fired.\<close>

definition runWithTimeout ::
  "registry \<Rightarrow> Task \<Rightarrow> Step \<Rightarrow> (string \<times> jv) list \<Rightarrow> string \<Rightarrow> settled \<times> int option" where
  "runWithTimeout backends t step resolvedInput label =
     (case executeBackend backends (stepTask t step resolvedInput) of
        (p, tr) \<Rightarrow>
          (case timeoutSeconds t step of
             Some secs \<Rightarrow>
               (withTimeout p (js_times secs 1000) label,
                attempt_before (timer_delay (js_times secs 1000)) 0 tr)
           | None \<Rightarrow> (p, last_attempt tr)))"

definition input_of :: "Step \<Rightarrow> (string \<times> jv) list" where
  "input_of step = (case input step of Some i \<Rightarrow> i | None \<Rightarrow> [])"

section \<open>Sequential pipeline runner (engine/sequential.ts)\<close>

record seq_state =
  q_stepResults :: "jv list"
  q_stepStatuses :: "StepStatus list"
  q_now :: nat
  q_progress :: "int list"

definition seq_context :: "Task \<Rightarrow> seq_state \<Rightarrow> jv" where
  "seq_context t s = JObj [(''payload'', JObj (payload t)), (''steps'', JArr (q_stepResults s))]"

text \<open>The status object is pushed when the step starts and mutated afterwards; here the
  finished status is appended once.\<close>

definition seq_finish :: "seq_state \<Rightarrow> StepStatus \<Rightarrow> jv option \<Rightarrow> nat \<Rightarrow> seq_state" where
  "seq_finish s st pushed ms =
     s\<lparr>q_stepResults := (case pushed of None \<Rightarrow> q_stepResults s | Some v \<Rightarrow> q_stepResults s @ [v]),
       q_stepStatuses := q_stepStatuses s @ [st],
       q_now := q_now s + ms\<rparr>"

definition since :: "nat option \<Rightarrow> nat \<Rightarrow> int option" where
  "since started t = map_option (\<lambda>a. int t - int a) started"

text \<open>The \<open>try\<close> block and its \<open>catch\<close>, once the backend call has settled as \<open>go\<close>.  \<open>Some e\<close>
  in the first component is the error the iteration throws.\<close>

definition seq_run :: "seq_state \<Rightarrow> StepStatus \<Rightarrow> Step \<Rightarrow> settled \<times> int option \<Rightarrow> thrown option \<times> seq_state" where
  "seq_run s st step go =
     (case go of
        ((r, ms), ra) \<Rightarrow>
          (let t1 = q_now s + ms;
               st1 = st\<lparr>status := Running, retryAttempt := ra\<rparr>
           in case r of
                Inr v \<Rightarrow>
                  (None, seq_finish s (st1\<lparr>status := Completed, completedAt := Some t1,
                                           duration := since (startedAt st) t1,
                                           result := Some v\<rparr>) (Some v) ms)
              | Inl e \<Rightarrow>
                  if is_optional step then
                    (None, seq_finish s (st1\<lparr>status := Skipped, completedAt := Some t1,
                                             duration := since (startedAt st) t1,
                                             error := Some (errorMsg e)\<rparr>)
                             (Some (skipped_error (errorMsg e))) ms)
                  else
                    (Some e, seq_finish s (st1\<lparr>status := Failed, completedAt := Some t1,
                                               duration := since (startedAt st) t1,
                                               error := Some (errorMsg e)\<rparr>) None ms)))"

text \<open>One iteration of the \<open>for\<close> loop.\<close>

definition seq_step :: "registry \<Rightarrow> Task \<Rightarrow> nat \<Rightarrow> nat \<Rightarrow> Step \<Rightarrow> seq_state \<Rightarrow> thrown option \<times> seq_state" where
  "seq_step backends t totalSteps i step s0 =
     (let stepId = ''step_'' @ string_of_nat i;
          s = s0\<lparr>q_progress := q_progress s0 @ [round_percent i totalSteps]\<rparr>;
          st = \<lparr>st_id = stepId, st_task = task step, status = Pending,
                startedAt = Some (q_now s), completedAt = None, duration = None,
                error = None, result = None, retryAttempt = None\<rparr>;
          skip = (\<lambda>marker.
                    (None, seq_finish s (st\<lparr>status := Skipped, completedAt := Some (q_now s),
                                               duration := Some 0\<rparr>) (Some marker) 0));
          go = (case resolveTemplates (input_of step) (seq_context t s) of
                  Inl e \<Rightarrow> ((Inl e, 0), None)
                | Inr resolvedInput \<Rightarrow> runWithTimeout backends t step resolvedInput stepId)
      in
      if is_set (runWhen step) \<and> runWhen step \<noteq> Some ''always'' then
        (if runWhen step = Some ''on-demand'' then skip skipped_on_demand
         else
           (case resolveTemplate (the (runWhen step)) (seq_context t s) of
              Inl e \<Rightarrow> (Some e, s\<lparr>q_stepStatuses := q_stepStatuses s @ [st]\<rparr>)
            | Inr conditionResult \<Rightarrow>
                if \<not> truthy conditionResult then skip (skipped_condition (the (runWhen step)))
                else seq_run s st step go))
      else seq_run s st step go)"

fun seq_loop :: "registry \<Rightarrow> Task \<Rightarrow> nat \<Rightarrow> nat \<Rightarrow> Step list \<Rightarrow> seq_state \<Rightarrow> thrown option \<times> seq_state" where
  "seq_loop backends t totalSteps i [] s = (None, s)"
| "seq_loop backends t totalSteps i (step # rest) s =
     (case seq_step backends t totalSteps i step s of
        (Some e, s') \<Rightarrow> (Some e, s')
      | (None, s') \<Rightarrow> seq_loop backends t totalSteps (Suc i) rest s')"

definition steps_of :: "Task \<Rightarrow> Step list" where
  "steps_of t = (case steps t of Some ss \<Rightarrow> ss | None \<Rightarrow> [])"

definition processPipelineSequential :: "registry \<Rightarrow> Task \<Rightarrow> PipelineResult run" where
  "processPipelineSequential backends t =
     (case seq_loop backends t (length (steps_of t)) 0 (steps_of t)
             \<lparr>q_stepResults = [], q_stepStatuses = [], q_now = 0, q_progress = []\<rparr> of
        (Some e, s) \<Rightarrow> \<lparr>outcome = Inl e, progress_calls = q_progress s\<rparr>
      | (None, s) \<Rightarrow>
          \<lparr>outcome = Inr
             \<lparr>pr_steps = q_stepResults s,
              stepResults = map (\<lambda>(i, r). (''step_'' @ string_of_nat i, r))
                                (enumerate 0 (q_stepResults s)),
              stepStatus = q_stepStatuses s,
              finalResult = (if q_stepResults s = [] then JUndefined else last (q_stepResults s)),
              totalDuration = int (q_now s),
              pr_parallelGroups = []\<rparr>,
           progress_calls = q_progress s\<rparr>)"

section \<open>DAG pipeline runner (engine/dispatcher.ts)\<close>

text \<open>The mutable locals of \<open>processPipelineDAG\<close>.  The three sets are JavaScript \<open>Set\<close>s,
  kept as lists without repetition; \<open>results\<close> and the status map are keyed by step id.
  \<open>progress\<close> collects the values passed to the progress callback.\<close>

record dag_state =
  results :: "(string \<times> jv) list"
  completed :: "string list"
  failed :: "string list"
  running :: "string list"
  stepStatuses :: "(string \<times> StepStatus) list"
  parallelGroups :: "string list list"
  now :: nat
  progress :: "int list"

text \<open>\<open>step.id || `step_${index}`\<close>\<close>

definition stepIdOf :: "nat \<Rightarrow> Step \<Rightarrow> string" where
  "stepIdOf index step =
     (if is_set (s_id step) then the (s_id step) else ''step_'' @ string_of_nat index)"

text \<open>\<open>stepMap.set(id, step)\<close> for every step in turn: a later step with the same id
  replaces the earlier one and keeps its place.\<close>

definition build_stepMap :: "Step list \<Rightarrow> (string \<times> Step) list" where
  "build_stepMap ss = foldl (\<lambda>m (i, step). AList.update (stepIdOf i step) step m) [] (enumerate 0 ss)"

definition init_state :: "(string \<times> Step) list \<Rightarrow> dag_state" where
  "init_state stepMap =
     \<lparr>results = [], completed = [], failed = [], running = [],
      stepStatuses = map (\<lambda>(i, step). (i, \<lparr>st_id = i, st_task = task step, status = Pending,
                                              startedAt = None, completedAt = None, duration = None,
                                              error = None, result = None, retryAttempt = None\<rparr>))
                         stepMap,
      parallelGroups = [], now = 0, progress = []\<rparr>"

definition dag_context :: "Task \<Rightarrow> (string \<times> jv) list \<Rightarrow> jv" where
  "dag_context t res = JObj [(''payload'', JObj (payload t)), (''steps'', JObj res)]"

definition deps_of :: "Step \<Rightarrow> string list" where
  "deps_of step = (case dependsOn step of Some ds \<Rightarrow> ds | None \<Rightarrow> [])"

definition canRun :: "dag_state \<Rightarrow> Step \<Rightarrow> string \<Rightarrow> bool" where
  "canRun s step stepId =
     (if stepId \<in> set (running s) \<or> stepId \<in> set (completed s) \<or> stepId \<in> set (failed s)
      then False
      else list_all (\<lambda>depId. depId \<in> set (completed s)) (deps_of step))"

definition getRunnableSteps :: "(string \<times> Step) list \<Rightarrow> dag_state \<Rightarrow> (string \<times> Step) list" where
  "getRunnableSteps stepMap s = filter (\<lambda>(i, step). canRun s step i) stepMap"

subsection \<open>Executing one step\<close>

definition set_status :: "string \<Rightarrow> (StepStatus \<Rightarrow> StepStatus) \<Rightarrow> dag_state \<Rightarrow> dag_state" where
  "set_status stepId f s = s\<lparr>stepStatuses := AList.map_entry stepId f (stepStatuses s)\<rparr>"

text \<open>The two \<open>runWhen\<close> skips: only the status word changes, the step counts as completed
  and its result is the marker.\<close>

definition skip_step :: "string \<Rightarrow> jv \<Rightarrow> dag_state \<Rightarrow> dag_state" where
  "skip_step stepId marker s =
     (set_status stepId (\<lambda>st. st\<lparr>status := Skipped\<rparr>) s)
       \<lparr>running := removeAll stepId (running s),
        completed := List.insert stepId (completed s),
        results := AList.update stepId marker (results s)\<rparr>"

text \<open>The end of the \<open>try\<close> block, at time \<open>t1\<close>.\<close>

definition complete_step :: "string \<Rightarrow> jv \<Rightarrow> nat \<Rightarrow> dag_state \<Rightarrow> dag_state" where
  "complete_step stepId v t1 s =
     (set_status stepId (\<lambda>st. st\<lparr>status := Completed, completedAt := Some t1,
                                  duration := since (startedAt st) t1, result := Some v\<rparr>) s)
       \<lparr>running := removeAll stepId (running s),
        completed := List.insert stepId (completed s),
        results := AList.update stepId v (results s)\<rparr>"

text \<open>The \<open>catch\<close> block, at time \<open>t1\<close>; the first component is \<open>outcome.error\<close>.\<close>

definition fail_step :: "string \<Rightarrow> Step \<Rightarrow> thrown \<Rightarrow> nat \<Rightarrow> dag_state \<Rightarrow> thrown option \<times> dag_state" where
  "fail_step stepId step e t1 s =
     (if is_optional step then
        (None,
         (set_status stepId (\<lambda>st. st\<lparr>status := Skipped, completedAt := Some t1,
                                      duration := since (startedAt st) t1,
                                      error := Some (errorMsg e)\<rparr>) s)
           \<lparr>running := removeAll stepId (running s),
            completed := List.insert stepId (completed s),
            results := AList.update stepId (skipped_error (errorMsg e)) (results s)\<rparr>)
      else
        (Some (as_Error e),
         (set_status stepId (\<lambda>st. st\<lparr>status := Failed, completedAt := Some t1,
                                      duration := since (startedAt st) t1,
                                      error := Some (errorMsg e)\<rparr>) s)
           \<lparr>running := removeAll stepId (running s),
            failed := List.insert stepId (failed s)\<rparr>))"

subsection \<open>forEach\<close>

definition item_context :: "Task \<Rightarrow> (string \<times> jv) list \<Rightarrow> jv \<Rightarrow> nat \<Rightarrow> jv" where
  "item_context t res item index =
     JObj [(''payload'', JObj (payload t)), (''steps'', JObj res), (''item'', item),
           (''index'', JNum (int index))]"

definition executeItem ::
  "registry \<Rightarrow> Task \<Rightarrow> (string \<times> jv) list \<Rightarrow> string \<Rightarrow> Step \<Rightarrow> nat \<Rightarrow> jv \<Rightarrow> settled \<times> int option" where
  "executeItem backends t res stepId step index item =
     (case resolveTemplates (input_of step) (item_context t res item index) of
        Inl e \<Rightarrow> ((Inl e, 0), None)
      | Inr resolvedInput \<Rightarrow>
          runWithTimeout backends t step resolvedInput
            (stepId @ ''['' @ string_of_nat index @ '']''))"

text \<open>\<open>Promise.all\<close>: all the values in order once the slowest has resolved, or the
  rejection that comes first in time (the earlier promise on a tie).\<close>

fun Promise_all :: "settled list \<Rightarrow> (thrown + jv list) \<times> nat" where
  "Promise_all [] = (Inr [], 0)"
| "Promise_all ((r, ms) # ps) =
     (case (r, Promise_all ps) of
        (Inr v, (Inr vs, ms')) \<Rightarrow> (Inr (v # vs), max ms ms')
      | (Inr v, (Inl e', ms')) \<Rightarrow> (Inl e', ms')
      | (Inl e, (Inr vs, ms')) \<Rightarrow> (Inl e, ms)
      | (Inl e, (Inl e', ms')) \<Rightarrow> if ms' < ms then (Inl e', ms') else (Inl e, ms))"

definition latest :: "int option \<Rightarrow> int option \<Rightarrow> int option" where
  "latest a b = (case b of Some x \<Rightarrow> Some x | None \<Rightarrow> a)"

text \<open>\<open>step.forEachConcurrency || items.length\<close>\<close>

definition concurrency_of :: "Step \<Rightarrow> nat \<Rightarrow> nat" where
  "concurrency_of step n =
     (case forEachConcurrency step of Some c \<Rightarrow> if c \<noteq> 0 then c else n | None \<Rightarrow> n)"

text \<open>The batch loop, \<open>for (let i = 0; i < items.length; i += concurrency)\<close>.  \<open>exec\<close> runs
  one item given its index; \<open>ms\<close> is the time spent so far, \<open>ra\<close> the retry attempt last
  reported.\<close>

function forEach_loop ::
  "(nat \<Rightarrow> jv \<Rightarrow> settled \<times> int option) \<Rightarrow> Step \<Rightarrow> jv list \<Rightarrow> nat \<Rightarrow> jv list \<Rightarrow> nat \<Rightarrow>
   int option \<Rightarrow> settled \<times> int option" where
  "forEach_loop exec step items i itemResults ms ra =
     (if i < length items then
        (let batch = take (concurrency_of step (length items)) (drop i items);
             outs = map (\<lambda>(batchIndex, item). exec (i + batchIndex) item) (enumerate 0 batch);
             ra' = fold (\<lambda>out a. latest a (snd out)) outs ra
         in case Promise_all (map fst outs) of
              (Inl e, d) \<Rightarrow> ((Inl e, ms + d), ra')
            | (Inr batchResults, d) \<Rightarrow>
                forEach_loop exec step items (i + concurrency_of step (length items))
                  (itemResults @ batchResults) (ms + d) ra')
      else ((Inr (JArr itemResults), ms), ra))"
  by pat_completeness auto
termination
  by (relation "measure (\<lambda>(exec, step, items, i, itemResults, ms, ra). length items - i)")
     (auto simp: concurrency_of_def split: option.splits)

declare forEach_loop.simps [simp del]

subsection \<open>executeStep\<close>

text \<open>What the promise of \<open>executeStep\<close> gives: it rejects (only if evaluating \<open>runWhen\<close>
  throws, outside the \<open>try\<close>), or it returns an outcome with its \<open>error\<close> field; the flag
  says whether the step awaited anything, and the number how long.\<close>

datatype step_outcome = Rejected thrown | Returned "thrown option" bool nat

text \<open>How the \<open>try\<close> block ends once the awaited operation \<open>go\<close> has settled: its last
  lines on success, the \<open>catch\<close> block on failure.  \<open>t0\<close> is the time of dispatch.\<close>

definition settle_step ::
  "string \<Rightarrow> Step \<Rightarrow> nat \<Rightarrow> settled \<times> int option \<Rightarrow> bool \<Rightarrow> dag_state \<Rightarrow> step_outcome \<times> dag_state" where
  "settle_step stepId step t0 go awaited s =
     (case go of
        ((r, ms), ra) \<Rightarrow>
          (case r of
             Inr v \<Rightarrow>
               (Returned None awaited ms,
                complete_step stepId v (t0 + ms)
                  (set_status stepId (\<lambda>st. st\<lparr>retryAttempt := ra\<rparr>) s))
           | Inl e \<Rightarrow>
               (case fail_step stepId step e (t0 + ms)
                       (set_status stepId (\<lambda>st. st\<lparr>retryAttempt := ra\<rparr>) s) of
                  (err, s') \<Rightarrow> (Returned err awaited ms, s'))))"

text \<open>\<open>Array.isArray(items)\<close> with the elements of the array.\<close>

fun array_items :: "jv \<Rightarrow> jv list option" where
  "array_items (JArr xs) = Some xs"
| "array_items (JPrototype ArrayPrototype) = Some []"
| "array_items _ = None"

text \<open>The \<open>try\<close> block.  \<open>res\<close> is the \<open>results\<close> object as it is when the step is
  dispatched: templates are resolved before the first \<open>await\<close>.  (The inputs of the items
  of a \<open>forEach\<close> are resolved batch by batch in the source; the model resolves them all
  against the context of dispatch.)  A \<open>forEach\<close> over an empty array and one that is not
  an array finish without awaiting.\<close>

definition executeStep_try ::
  "registry \<Rightarrow> Task \<Rightarrow> (string \<times> jv) list \<Rightarrow> string \<Rightarrow> Step \<Rightarrow> dag_state \<Rightarrow> step_outcome \<times> dag_state" where
  "executeStep_try backends t res stepId step s0 =
     (let s = set_status stepId (\<lambda>st. st\<lparr>status := Running, startedAt := Some (now s0)\<rparr>) s0 in
      if is_set (forEach step) then
        (case resolveTemplate (the (forEach step)) (dag_context t res) of
           Inl e \<Rightarrow> settle_step stepId step (now s0) ((Inl e, 0), None) False s
         | Inr items \<Rightarrow>
             (case array_items items of
                Some xs \<Rightarrow>
                  settle_step stepId step (now s0)
                    (forEach_loop (executeItem backends t res stepId step) step xs 0 [] 0 None)
                    (xs \<noteq> []) s
              | None \<Rightarrow>
                  settle_step stepId step (now s0)
                    ((Inl (Error (''forEach template '' @ quoted (the (forEach step))
                                   @ '' did not resolve to array, got: '' @ typeof items)), 0),
                     None) False s))
      else
        (case resolveTemplates (input_of step) (dag_context t res) of
           Inl e \<Rightarrow> settle_step stepId step (now s0) ((Inl e, 0), None) False s
         | Inr resolvedInput \<Rightarrow>
             settle_step stepId step (now s0)
               (runWithTimeout backends t step resolvedInput stepId) True s))"

definition executeStep ::
  "registry \<Rightarrow> Task \<Rightarrow> (string \<times> jv) list \<Rightarrow> string \<Rightarrow> Step \<Rightarrow> dag_state \<Rightarrow> step_outcome \<times> dag_state" where
  "executeStep backends t res stepId step s0 =
     (let s = s0\<lparr>running := List.insert stepId (running s0)\<rparr> in
      if is_set (runWhen step) \<and> runWhen step \<noteq> Some ''always'' then
        (if runWhen step = Some ''on-demand'' then
           (Returned None False 0, skip_step stepId skipped_on_demand s)
         else
           (case resolveTemplate (the (runWhen step)) (dag_context t res) of
              Inl e \<Rightarrow> (Rejected e, s)
            | Inr conditionResult \<Rightarrow>
                if \<not> truthy conditionResult then
                  (Returned None False 0, skip_step stepId (skipped_condition (the (runWhen step))) s)
                else executeStep_try backends t res stepId step s))
      else executeStep_try backends t res stepId step s)"

subsection \<open>The scheduling loop\<close>

text \<open>The results a step dispatched later in the same tick can see: a step that returned
  without awaiting has already written its result.\<close>

definition visible_after :: "step_outcome \<Rightarrow> string \<Rightarrow> dag_state \<Rightarrow> (string \<times> jv) list \<Rightarrow> (string \<times> jv) list" where
  "visible_after out stepId s res =
     (case out of
        Returned err False ms \<Rightarrow>
          (case map_of (results s) stepId of Some v \<Rightarrow> AList.update stepId v res | None \<Rightarrow> res)
      | _ \<Rightarrow> res)"

text \<open>\<open>runnable.map(({id, step}) => executeStep(id, step))\<close> followed by
  \<open>await Promise.all(executions)\<close>: every runnable step is dispatched in order and the tick
  waits for all of them.\<close>

fun run_all ::
  "registry \<Rightarrow> Task \<Rightarrow> (string \<times> jv) list \<Rightarrow> (string \<times> Step) list \<Rightarrow> dag_state \<Rightarrow>
   step_outcome list \<times> dag_state" where
  "run_all backends t res [] s = ([], s)"
| "run_all backends t res ((stepId, step) # rest) s =
     (case executeStep backends t res stepId step s of
        (out, s1) \<Rightarrow>
          (case run_all backends t (visible_after out stepId s1 res) rest s1 of
             (outs, s2) \<Rightarrow> (out # outs, s2)))"

fun outcome_ms :: "step_outcome \<Rightarrow> nat" where
  "outcome_ms (Rejected e) = 0"
| "outcome_ms (Returned err awaited ms) = ms"

text \<open>What the tick throws: the rejection of \<open>Promise.all\<close> if a call rejected, otherwise
  the first outcome carrying an error.\<close>

fun first_rejected :: "step_outcome list \<Rightarrow> thrown option" where
  "first_rejected [] = None"
| "first_rejected (Rejected e # outs) = Some e"
| "first_rejected (Returned err awaited ms # outs) = first_rejected outs"

fun first_error :: "step_outcome list \<Rightarrow> thrown option" where
  "first_error [] = None"
| "first_error (Returned (Some e) awaited ms # outs) = Some e"
| "first_error (out # outs) = first_error outs"

definition thrown_by :: "step_outcome list \<Rightarrow> thrown option" where
  "thrown_by outs = (case first_rejected outs of Some e \<Rightarrow> Some e | None \<Rightarrow> first_error outs)"

fun join :: "string \<Rightarrow> string list \<Rightarrow> string" where
  "join sep [] = []"
| "join sep [x] = x"
| "join sep (x # y # ys) = x @ sep @ join sep (y # ys)"

text \<open>The task types of the declared steps whose id is neither completed nor failed.\<close>

definition remaining_tasks :: "Step list \<Rightarrow> dag_state \<Rightarrow> string list" where
  "remaining_tasks ss s =
     map (\<lambda>(i, step). task step)
       (filter (\<lambda>(i, step). stepIdOf i step \<notin> set (completed s) \<and> stepIdOf i step \<notin> set (failed s))
          (enumerate 0 ss))"

definition deadlock_message :: "string list \<Rightarrow> string" where
  "deadlock_message remaining =
     ''Pipeline deadlock: cannot run remaining steps ['' @ join '', '' remaining @ '']. ''
     @ ''Check for circular dependencies or missing dependency IDs.''"

text \<open>The \<open>while\<close> loop.  It need not end (a tick that finds nothing runnable while a step
  is marked running sleeps and tries again), so it takes fuel: one unit per iteration,
  \<open>None\<close> when the fuel runs out.  \<open>Some (Some e, s)\<close> is a run that throws \<open>e\<close>.\<close>

fun dag_loop ::
  "nat \<Rightarrow> registry \<Rightarrow> Task \<Rightarrow> (string \<times> Step) list \<Rightarrow> dag_state \<Rightarrow> (thrown option \<times> dag_state) option" where
  "dag_loop 0 backends t stepMap s = None"
| "dag_loop (Suc fuel) backends t stepMap s =
     (if length (completed s) + length (failed s) < length (steps_of t) then
        (let runnable = getRunnableSteps stepMap s in
         if length runnable = 0 then
           (if length (running s) = 0 then
              Some (Some (Error (deadlock_message (remaining_tasks (steps_of t) s))), s)
            else dag_loop fuel backends t stepMap (s\<lparr>now := now s + 10\<rparr>))
         else
           (case run_all backends t (results s) runnable
                   (if 1 < length runnable
                    then s\<lparr>parallelGroups := parallelGroups s @ [map fst runnable]\<rparr> else s) of
              (outs, s1) \<Rightarrow>
                (let s2 = s1\<lparr>now := now s + fold max (map outcome_ms outs) 0\<rparr> in
                 case thrown_by outs of
                   Some e \<Rightarrow> Some (Some e, s2)
                 | None \<Rightarrow>
                     dag_loop fuel backends t stepMap
                       (s2\<lparr>progress := progress s2 @
                             [round_percent (length (completed s2)) (length (steps_of t))]\<rparr>))))
      else Some (None, s))"

definition processPipelineDAG :: "nat \<Rightarrow> registry \<Rightarrow> Task \<Rightarrow> PipelineResult run option" where
  "processPipelineDAG fuel backends t =
     (case dag_loop fuel backends t (build_stepMap (steps_of t))
             (init_state (build_stepMap (steps_of t))) of
        None \<Rightarrow> None
      | Some (Some e, s) \<Rightarrow> Some \<lparr>outcome = Inl e, progress_calls = progress s\<rparr>
      | Some (None, s) \<Rightarrow>
          (let orderedResults =
                 map (\<lambda>(i, step). obj_get (results s) (stepIdOf i step)) (enumerate 0 (steps_of t))
           in Some
             \<lparr>outcome = Inr
                \<lparr>pr_steps = orderedResults,
                 stepResults = results s,
                 stepStatus = map snd (stepStatuses s),
                 finalResult = (if orderedResults = [] then JUndefined else last orderedResults),
                 totalDuration = int (now s),
                 pr_parallelGroups = parallelGroups s\<rparr>,
              progress_calls = progress s\<rparr>))"

section \<open>Dispatcher entry point\<close>

datatype task_output = Pipeline PipelineResult | Single jv

text \<open>\<open>task.steps.some((s) => s.dependsOn?.length || s.id)\<close>\<close>

definition hasDependencies :: "Step list \<Rightarrow> bool" where
  "hasDependencies ss = list_ex (\<lambda>step. deps_of step \<noteq> [] \<or> is_set (s_id step)) ss"

definition as_pipeline :: "PipelineResult run \<Rightarrow> task_output run" where
  "as_pipeline r = \<lparr>outcome = map_sum (\<lambda>e. e) Pipeline (outcome r), progress_calls = progress_calls r\<rparr>"

text \<open>\<open>processTask\<close> without a chunk configuration (chunking is a module of its own, outside
  the engine).  The fuel is that of the DAG loop.\<close>

definition processTask :: "nat \<Rightarrow> registry \<Rightarrow> Task \<Rightarrow> task_output run option" where
  "processTask fuel backends t =
     (if steps_of t \<noteq> [] then
        (if hasDependencies (steps_of t)
         then map_option as_pipeline (processPipelineDAG fuel backends t)
         else Some (as_pipeline (processPipelineSequential backends t)))
      else
        Some \<lparr>outcome =
                (case selectBackend backends t of
                   Inl e \<Rightarrow> Inl e
                 | Inr b \<Rightarrow> map_sum (\<lambda>e. e) Single (fst (executeWithRetry t (execute b t)))),
              progress_calls = []\<rparr>)"

section \<open>Bookkeeping of the DAG scheduler\<close>

text \<open>What one call of \<open>executeStep\<close> does to the bookkeeping: it returns (it never
  rejects), the step is no longer running, and its id has joined \<open>completed\<close> when the
  outcome carries no error and \<open>failed\<close> when it does.\<close>

definition step_effect :: "string \<Rightarrow> dag_state \<Rightarrow> step_outcome \<Rightarrow> dag_state \<Rightarrow> bool" where
  "step_effect stepId s out s' =
     (\<exists>err aw ms. out = Returned err aw ms
        \<and> running s' = removeAll stepId (running s)
        \<and> now s' = now s \<and> progress s' = progress s \<and> parallelGroups s' = parallelGroups s
        \<and> map fst (stepStatuses s') = map fst (stepStatuses s)
        \<and> (err = None \<and> completed s' = List.insert stepId (completed s) \<and> failed s' = failed s
           \<or> err \<noteq> None \<and> failed s' = List.insert stepId (failed s) \<and> completed s' = completed s))"

text \<open>The ids that have reached a terminal state.\<close>

definition terminal :: "dag_state \<Rightarrow> string set" where
  "terminal s = set (completed s) \<union> set (failed s)"

text \<open>What holds of the bookkeeping whenever the loop condition is evaluated: no step is
  running (every tick awaits all the steps it dispatched), the two sets are disjoint and
  hold ids of the step map only.\<close>

definition dag_inv :: "(string \<times> Step) list \<Rightarrow> dag_state \<Rightarrow> bool" where
  "dag_inv stepMap s =
     (running s = [] \<and> distinct (completed s) \<and> distinct (failed s)
      \<and> set (completed s) \<inter> set (failed s) = {}
      \<and> terminal s \<subseteq> set (map fst stepMap))"

text \<open>The ids of the declared steps after defaulting, in declaration order.\<close>

definition declared_ids :: "Step list \<Rightarrow> string list" where
  "declared_ids ss = map (\<lambda>(i, step). stepIdOf i step) (enumerate 0 ss)"

subsection \<open>What a run of the scheduler amounts to\<close>

text \<open>The status record of a step id.\<close>

definition status_of :: "dag_state \<Rightarrow> string \<Rightarrow> StepStatus option" where
  "status_of s i = map_of (stepStatuses s) i"

text \<open>The failure of step \<open>i\<close> with error \<open>e\<close> as the bookkeeping records it: the id is in
  \<open>failed\<close>, the status is \<open>failed\<close> with the message of \<open>e\<close>, and \<open>e\<close> is an \<open>Error\<close> object.\<close>

definition failure_recorded :: "thrown \<Rightarrow> string \<Rightarrow> dag_state \<Rightarrow> bool" where
  "failure_recorded e i s =
     (i \<in> set (failed s) \<and> as_Error e = e
      \<and> map_option status (status_of s i) = Some Failed
      \<and> map_option error (status_of s i) = Some (Some (errorMsg e)))"

text \<open>The declared steps whose id is not among the resolved ones, in declaration order.\<close>

definition unresolved :: "Step list \<Rightarrow> string set \<Rightarrow> Step list" where
  "unresolved ss resolved =
     map snd (filter (\<lambda>(i, step). i \<notin> resolved) (zip (declared_ids ss) ss))"

text \<open>The steps of the map that are ready once the ids \<open>resolved\<close> have completed: not yet
  completed themselves, and depending on completed ids only.\<close>

definition ready :: "(string \<times> Step) list \<Rightarrow> string list \<Rightarrow> (string \<times> Step) list" where
  "ready stepMap resolved =
     filter (\<lambda>(i, step). i \<notin> set resolved \<and> set (deps_of step) \<subseteq> set resolved) stepMap"

text \<open>The schedule of a pipeline of \<open>n\<close> declared steps in which no required step fails,
  from the dependencies alone: the ids that have completed after the first tick, after the
  second, and so on, each tick completing every step that is ready.\<close>

function completed_after :: "(string \<times> Step) list \<Rightarrow> nat \<Rightarrow> string list \<Rightarrow> string list list" where
  "completed_after stepMap n resolved =
     (if length resolved < n \<and> ready stepMap resolved \<noteq> []
      then (resolved @ map fst (ready stepMap resolved))
           # completed_after stepMap n (resolved @ map fst (ready stepMap resolved))
      else [])"
  by pat_completeness auto
termination
proof (relation "measure (\<lambda>(stepMap, n, resolved). n - length resolved)")
  show "wf (measure (\<lambda>(stepMap, n, resolved). n - length resolved))" by simp
next
  fix stepMap :: "(string \<times> Step) list" and n :: nat and resolved :: "string list"
  assume "length resolved < n \<and> ready stepMap resolved \<noteq> []"
  then have "length resolved < n" "0 < length (ready stepMap resolved)" by simp_all
  then have "n - (length resolved + length (ready stepMap resolved)) < n - length resolved"
    by linarith
  then show "((stepMap, n, resolved @ map fst (ready stepMap resolved)), (stepMap, n, resolved))
      \<in> measure (\<lambda>(stepMap, n, resolved). n - length resolved)"
    by simp
qed

declare completed_after.simps [simp del]

text \<open>The ids that such a run ever completes.\<close>

definition scheduled :: "(string \<times> Step) list \<Rightarrow> nat \<Rightarrow> string list" where
  "scheduled stepMap n = last ([] # completed_after stepMap n [])"

text \<open>A set of step ids each of which waits for a member of the set or for an id that no
  step has: a cycle, or steps behind a missing dependency.\<close>

definition blocked :: "(string \<times> Step) list \<Rightarrow> string set \<Rightarrow> bool" where
  "blocked stepMap B =
     (\<forall>(i, step) \<in> set stepMap.
        i \<in> B \<longrightarrow> (\<exists>d \<in> set (deps_of step). d \<in> B \<or> d \<notin> fst ` set stepMap))"

text \<open>The steps declared with the id \<open>i\<close>, in declaration order.\<close>

definition declared_as :: "Step list \<Rightarrow> string \<Rightarrow> Step list" where
  "declared_as ss i = map snd (filter (\<lambda>(k, step). k = i) (zip (declared_ids ss) ss))"

text \<open>The text of the deadlock error for a list of task types.\<close>

definition deadlock_text :: "string list \<Rightarrow> string" where
  "deadlock_text tasks =
     ''Pipeline deadlock: cannot run remaining steps ['' @ join '', '' tasks
     @ '']. Check for circular dependencies or missing dependency IDs.''"

section \<open>Example inputs\<close>

text \<open>A registry of three backends: \<open>ray\<close>, whose health check throws; \<open>local\<close>, healthy,
  with a GPU that is taken; \<open>modal\<close>, healthy, with a free GPU.  Each backend fails on the task type \<open>failing.task\<close> after
  1 ms, doubles the \<open>value\<close> of a \<open>double\<close> task after 3 ms, and answers any other task
  with an object holding the task type and its payload after 5 ms.\<close>

definition echo :: "Task \<Rightarrow> nat \<Rightarrow> settled" where
  "echo t k =
     (if t_type t = ''failing.task'' then (Inl (Error ''Always fails''), 1)
      else if t_type t = ''double'' then
        (case map_of (payload t) ''value'' of
           Some (JNum n) \<Rightarrow> (Inr (JObj [(''processed'', JNum n), (''doubled'', JNum (2 * n))]), 3)
         | _ \<Rightarrow> (Inl (Error ''value is not a number''), 3))
      else (Inr (JObj [(''ran'', JStr (t_type t)), (''payload'', JObj (payload t))]), 5))"

definition ex_ray :: Backend where
  "ex_ray = \<lparr>name = ''ray'', execute = echo, isHealthy = HealthThrows (Error ''unreachable''),
             getResources = None\<rparr>"

definition ex_local :: Backend where
  "ex_local = \<lparr>name = ''local'', execute = echo, isHealthy = Healthy True,
     getResources = Some (Inr \<lparr>gpus = [\<lparr>gpu_name = ''T4'', gpu_vram = 16000, available = False\<rparr>],
                                ram = (64000, 32000), vram = (16000, 0)\<rparr>)\<rparr>"

definition ex_modal :: Backend where
  "ex_modal = \<lparr>name = ''modal'', execute = echo, isHealthy = Healthy True,
     getResources = Some (Inr \<lparr>gpus = [\<lparr>gpu_name = ''A100'', gpu_vram = 40000, available = True\<rparr>],
                                ram = (64000, 32000), vram = (40000, 40000)\<rparr>)\<rparr>"

definition ex_registry :: registry where
  "ex_registry = registerBackend ex_modal (registerBackend ex_local (registerBackend ex_ray []))"

text \<open>A healthy backend whose resource query fails, registered before \<open>modal\<close>.\<close>

definition ex_edge :: Backend where
  "ex_edge = \<lparr>name = ''edge'', execute = echo, isHealthy = Healthy True,
              getResources = Some (Inl (Error ''driver not loaded''))\<rparr>"

definition ex_edge_registry :: registry where
  "ex_edge_registry = registerBackend ex_modal (registerBackend ex_edge (registerBackend ex_ray []))"

definition ex_single :: "string option \<Rightarrow> bool \<Rightarrow> Task" where
  "ex_single b g =
     \<lparr>t_type = ''llm.chat'', backend = b, payload = [], steps = None,
      resources = Some \<lparr>r_gpu = Some (GpuFlag g), r_vram = None, r_ram = None, r_cpu = None,
                        r_timeout = None\<rparr>,
      retry = None\<rparr>"

text \<open>An executor that fails twice and then succeeds, each call taking 2 ms, and a task with
  a retry policy.\<close>

definition flaky :: "nat \<Rightarrow> settled" where
  "flaky k = (if k < 3 then (Inl (Error ''Temporary failure''), 2) else (Inr (JStr ''ok''), 2))"

definition ex_policy :: "int \<Rightarrow> backoff_strategy \<Rightarrow> RetryConfig" where
  "ex_policy n b = \<lparr>attempts = Some n, backoff = Some b, delay = Some 10, maxDelay = None\<rparr>"

definition ex_retrying :: "RetryConfig option \<Rightarrow> Task" where
  "ex_retrying rc =
     \<lparr>t_type = ''flaky.task'', backend = Some ''modal'', payload = [], steps = None,
      resources = None, retry = rc\<rparr>"

text \<open>Pipelines: a step with an id and a task type and nothing else set, and a pipeline
  task for the backend \<open>modal\<close>.\<close>

definition mk_step :: "string \<Rightarrow> string \<Rightarrow> Step" where
  "mk_step i tk =
     \<lparr>s_id = Some i, task = tk, input = None, dependsOn = None, forEach = None,
      forEachConcurrency = None, runWhen = None, s_timeout = None, optional = None,
      s_resources = None, s_retry = None\<rparr>"

definition mk_pipeline :: "(string \<times> jv) list \<Rightarrow> Step list \<Rightarrow> Task" where
  "mk_pipeline p ss =
     \<lparr>t_type = ''pipeline'', backend = Some ''modal'', payload = p, steps = Some ss,
      resources = None, retry = None\<rparr>"

text \<open>Two steps that depend on each other.\<close>

definition ex_cycle :: Task where
  "ex_cycle = mk_pipeline []
     [(mk_step ''a'' ''instant.task'')\<lparr>dependsOn := Some [''b'']\<rparr>,
      (mk_step ''b'' ''other.task'')\<lparr>dependsOn := Some [''a'']\<rparr>]"

text \<open>A step that runs, followed by two steps that depend on each other; and a step that
  runs, followed by a step that waits for an id that no step has.\<close>

definition ex_stuck :: Task where
  "ex_stuck = mk_pipeline []
     [mk_step ''a'' ''instant.task'',
      (mk_step ''b'' ''other.task'')\<lparr>dependsOn := Some [''c'']\<rparr>,
      (mk_step ''c'' ''third.task'')\<lparr>dependsOn := Some [''b'']\<rparr>]"

definition ex_missing :: Task where
  "ex_missing = mk_pipeline []
     [mk_step ''a'' ''instant.task'',
      (mk_step ''b'' ''other.task'')\<lparr>dependsOn := Some [''nowhere'']\<rparr>]"

text \<open>Two steps with the same id; the second one, which the step map keeps, fails.\<close>

definition ex_duplicate :: Task where
  "ex_duplicate = mk_pipeline [] [mk_step ''a'' ''instant.task'', mk_step ''a'' ''failing.task'']"

text \<open>Two steps with the same id, neither of which fails.\<close>

definition ex_twice :: Task where
  "ex_twice = mk_pipeline [] [mk_step ''a'' ''instant.task'', mk_step ''a'' ''other.task'']"

text \<open>A single step, and two steps of which the second depends on the first.\<close>

definition ex_one :: Task where
  "ex_one = mk_pipeline [] [mk_step ''a'' ''instant.task'']"

definition ex_linear :: Task where
  "ex_linear = mk_pipeline [(''url'', JStr ''u'')]
     [(mk_step ''a'' ''download'')\<lparr>input := Some [(''url'', JStr ''{{payload.url}}'')]\<rparr>,
      (mk_step ''b'' ''transcribe'')\<lparr>dependsOn := Some [''a'']\<rparr>]"

text \<open>A single step that runs on demand only, and what a run says of the timing of each
  step.\<close>

definition ex_on_demand :: Task where
  "ex_on_demand = mk_pipeline [] [(mk_step ''a'' ''instant.task'')\<lparr>runWhen := Some ''on-demand''\<rparr>]"

definition timings :: "PipelineResult run \<Rightarrow> (step_state \<times> nat option \<times> nat option \<times> int option) list" where
  "timings r =
     (case outcome r of
        Inl e \<Rightarrow> []
      | Inr p \<Rightarrow> map (\<lambda>st. (status st, startedAt st, completedAt st, duration st)) (stepStatus p))"

text \<open>A step \<open>b\<close> whose condition is false and a step \<open>c\<close> that depends on it alone; the
  bookkeeping once \<open>a\<close> has completed; the result a run records for a step id.\<close>

definition ex_cond_b :: Step where
  "ex_cond_b = (mk_step ''b'' ''step2'')\<lparr>runWhen := Some ''{{payload.includeOptional}}'',
                                          dependsOn := Some [''a'']\<rparr>"

definition ex_cond_c :: Step where
  "ex_cond_c = (mk_step ''c'' ''step3'')\<lparr>dependsOn := Some [''b'']\<rparr>"

definition ex_conditional :: Task where
  "ex_conditional = mk_pipeline [(''includeOptional'', JBool False)]
     [mk_step ''a'' ''step1'', ex_cond_b, ex_cond_c]"

definition ex_after_a :: dag_state where
  "ex_after_a =
     \<lparr>results = [(''a'', JObj [(''ran'', JStr ''step1''), (''payload'', JObj [])])],
      completed = [''a''], failed = [], running = [],
      stepStatuses =
        [(''a'', \<lparr>st_id = ''a'', st_task = ''step1'', status = Completed, startedAt = Some 0,
                   completedAt = Some 5, duration = Some 5, error = None,
                   result = Some (JObj [(''ran'', JStr ''step1''), (''payload'', JObj [])]),
                   retryAttempt = None\<rparr>),
         (''b'', \<lparr>st_id = ''b'', st_task = ''step2'', status = Pending, startedAt = None,
                   completedAt = None, duration = None, error = None, result = None,
                   retryAttempt = None\<rparr>),
         (''c'', \<lparr>st_id = ''c'', st_task = ''step3'', status = Pending, startedAt = None,
                   completedAt = None, duration = None, error = None, result = None,
                   retryAttempt = None\<rparr>)],
      parallelGroups = [], now = 5, progress = [33]\<rparr>"

definition result_of :: "task_output run option \<Rightarrow> string \<Rightarrow> jv option" where
  "result_of r i =
     (case map_option outcome r of
        Some (Inr (Pipeline p)) \<Rightarrow> map_of (stepResults p) i
      | _ \<Rightarrow> None)"

text \<open>Three steps in a chain whose middle step fails: once optional, once required; and the
  same three steps without ids or dependencies, for the sequential runner.\<close>

definition ex_middle :: "bool \<Rightarrow> Step" where
  "ex_middle opt = (mk_step ''middle'' ''failing.task'')\<lparr>dependsOn := Some [''start''],
                                                          optional := Some opt\<rparr>"

definition ex_chain :: "bool \<Rightarrow> Task" where
  "ex_chain opt = mk_pipeline []
     [mk_step ''start'' ''instant.task'', ex_middle opt,
      (mk_step ''end'' ''instant.task'')\<lparr>dependsOn := Some [''middle'']\<rparr>]"

definition ex_legacy :: "bool \<Rightarrow> Task" where
  "ex_legacy opt = mk_pipeline []
     [mk_step [] ''step1'', (mk_step [] ''failing.task'')\<lparr>optional := Some opt\<rparr>,
      mk_step [] ''step3'']"

definition rejection :: "task_output run option \<Rightarrow> thrown option" where
  "rejection r = (case map_option outcome r of Some (Inl e) \<Rightarrow> Some e | _ \<Rightarrow> None)"

text \<open>The bookkeeping of the chain once \<open>start\<close> has completed and \<open>middle\<close> is running.\<close>

definition ex_after_start :: dag_state where
  "ex_after_start =
     \<lparr>results = [(''start'', JObj [(''ran'', JStr ''instant.task''), (''payload'', JObj [])])],
      completed = [''start''], failed = [], running = [''middle''],
      stepStatuses =
        [(''start'', \<lparr>st_id = ''start'', st_task = ''instant.task'', status = Completed,
                       startedAt = Some 0, completedAt = Some 5, duration = Some 5, error = None,
                       result = Some (JObj [(''ran'', JStr ''instant.task''), (''payload'', JObj [])]),
                       retryAttempt = None\<rparr>),
         (''middle'', \<lparr>st_id = ''middle'', st_task = ''failing.task'', status = Running,
                        startedAt = Some 5, completedAt = None, duration = None, error = None,
                        result = None, retryAttempt = None\<rparr>),
         (''end'', \<lparr>st_id = ''end'', st_task = ''instant.task'', status = Pending,
                     startedAt = None, completedAt = None, duration = None, error = None,
                     result = None, retryAttempt = None\<rparr>)],
      parallelGroups = [], now = 5, progress = [33]\<rparr>"

section \<open>Properties of the arithmetic\<close>

lemma rne_bounds: "a div b \<le> rne a b \<and> rne a b \<le> a div b + 1"
  by (simp add: rne_def)

lemma rne_exact: "0 < b \<Longrightarrow> rne (q * b) b = q"
  by (simp add: rne_def)

lemma rne_mono:
  assumes b: "0 < b" and le: "a \<le> a'"
  shows "rne a b \<le> rne a' b"
proof (cases "a div b = a' div b")
  case True
  have "a = a div b * b + a mod b" "a' = a' div b * b + a' mod b" by simp_all
  with True le have "a mod b \<le> a' mod b"
    by (metis add_le_cancel_left)
  with True show ?thesis by (auto simp: rne_def)
next
  case False
  have "a div b \<le> a' div b" using le by (rule div_le_mono)
  with False have "a div b + 1 \<le> a' div b" by simp
  with rne_bounds [of a b] rne_bounds [of a' b] show ?thesis by linarith
qed

lemma rne_scale:
  assumes "0 < c"
  shows "rne (a * c) (b * c) = rne a b"
proof -
  have d: "(a * c) div (b * c) = a div b" using assms by simp
  have m: "(a * c) mod (b * c) = (a mod b) * c" using assms by simp
  have c1: "2 * (a mod b * c) < b * c \<longleftrightarrow> 2 * (a mod b) < b"
    using assms by (metis mult.assoc mult_less_cancel2)
  have c2: "b * c < 2 * (a mod b * c) \<longleftrightarrow> b < 2 * (a mod b)"
    using assms by (metis mult.assoc mult_less_cancel2)
  show ?thesis unfolding rne_def d m c1 c2 ..
qed

lemma rne_frac_mono:
  assumes "0 < b" "0 < d" "a * d \<le> c * b"
  shows "rne a b \<le> rne c d"
proof -
  have "rne a b = rne (a * d) (b * d)" using assms rne_scale by simp
  also have "\<dots> \<le> rne (c * b) (b * d)" using assms by (intro rne_mono) simp_all
  also have "\<dots> = rne (c * b) (d * b)" by (simp add: mult.commute)
  also have "\<dots> = rne c d" using assms rne_scale by simp
  finally show ?thesis .
qed

lemma binade_ge: "e0 \<le> binade a b e0"
proof (induction a b e0 rule: binade.induct)
  case (1 a b e)
  show ?case
  proof (cases "a = 0 \<or> 2 ^ 52 * b \<le> a * 2 ^ e")
    case True
    then show ?thesis by (subst binade.simps) simp
  next
    case False
    with 1 have "Suc e \<le> binade a b (Suc e)" by simp
    with False show ?thesis by (subst binade.simps) simp
  qed
qed

lemma binade_sat: "0 < a \<Longrightarrow> 2 ^ 52 * b \<le> a * 2 ^ binade a b e0"
proof (induction a b e0 rule: binade.induct)
  case (1 a b e)
  show ?case
  proof (cases "a = 0 \<or> 2 ^ 52 * b \<le> a * 2 ^ e")
    case True
    with 1(2) show ?thesis by (subst binade.simps) simp
  next
    case False
    with 1 have "2 ^ 52 * b \<le> a * 2 ^ binade a b (Suc e)" by simp
    with False show ?thesis by (subst binade.simps) simp
  qed
qed

lemma binade_below:
  "0 < a \<Longrightarrow> e0 \<le> e \<Longrightarrow> e < binade a b e0 \<Longrightarrow> a * 2 ^ e < 2 ^ 52 * b"
proof (induction a b e0 rule: binade.induct)
  case (1 a b e0)
  show ?case
  proof (cases "a = 0 \<or> 2 ^ 52 * b \<le> a * 2 ^ e0")
    case True
    then have "binade a b e0 = e0" by (subst binade.simps) simp
    with 1(3,4) show ?thesis by simp
  next
    case False
    then have eq: "binade a b e0 = binade a b (Suc e0)" by (subst binade.simps) simp
    show ?thesis
    proof (cases "e = e0")
      case True
      with False show ?thesis by simp
    next
      case ne: False
      with 1(3) have "Suc e0 \<le> e" by simp
      with 1(1) [OF False 1(2) this] 1(4) eq show ?thesis by simp
    qed
  qed
qed

lemma binade_least:
  assumes "0 < a" "2 ^ 52 * b \<le> a * 2 ^ e"
  shows "binade a b 0 \<le> e"
proof (rule ccontr)
  assume "\<not> binade a b 0 \<le> e"
  then have "e < binade a b 0" by simp
  with binade_below [of a 0 e b] assms show False by simp
qed

lemma binade_eq:
  assumes "0 < a" "2 ^ 52 * b \<le> a * 2 ^ e" "e = 0 \<or> a * 2 ^ (e - 1) < 2 ^ 52 * b"
  shows "binade a b 0 = e"
proof (rule antisym)
  show "binade a b 0 \<le> e" using assms(1,2) by (rule binade_least)
  show "e \<le> binade a b 0"
  proof (rule ccontr)
    assume "\<not> e \<le> binade a b 0"
    then have lt: "binade a b 0 \<le> e - 1" and pos: "0 < e" by simp_all
    have "2 ^ 52 * b \<le> a * 2 ^ binade a b 0" using assms(1) by (rule binade_sat)
    also have "\<dots> \<le> a * 2 ^ (e - 1)" using lt by simp
    finally show False using assms(3) pos by simp
  qed
qed

text \<open>Rounding to a double is monotone, and exact on a quotient that is a double.\<close>

lemma to_double_mono:
  assumes b: "0 < b" and d: "0 < d" and le: "a * d \<le> c * b"
  shows "dle (to_double a b) (to_double c d)"
proof (cases "a = 0")
  case True
  then show ?thesis by (simp add: dle_def to_double_def)
next
  case False
  then have a: "0 < a" by simp
  with le b d have c: "0 < c" by (cases "c = 0") auto
  define e1 where "e1 = binade a b 0"
  define e2 where "e2 = binade c d 0"
  define m1 where "m1 = rne (a * 2 ^ e1) b"
  define m2 where "m2 = rne (c * 2 ^ e2) d"
  have s1: "2 ^ 52 * b \<le> a * 2 ^ e1" unfolding e1_def using a by (rule binade_sat)
  have s2: "2 ^ 52 * d \<le> c * 2 ^ e2" unfolding e2_def using c by (rule binade_sat)
  have "2 ^ 52 * b * d \<le> a * 2 ^ e1 * d" using s1 by simp
  also have "\<dots> = a * d * 2 ^ e1" by (simp add: mult_ac)
  also have "\<dots> \<le> c * b * 2 ^ e1" using le by simp
  finally have "(2 ^ 52 * d) * b \<le> (c * 2 ^ e1) * b" by (simp add: mult_ac)
  then have "2 ^ 52 * d \<le> c * 2 ^ e1" using b by simp
  then have e21: "e2 \<le> e1" unfolding e2_def using c by (intro binade_least)
  have m2_ge: "2 ^ 52 \<le> m2"
    unfolding m2_def using rne_frac_mono [of 1 d "2 ^ 52" "c * 2 ^ e2"] s2 d
    by (simp add: rne_def mult.commute)
  have goal: "m1 * 2 ^ e2 \<le> m2 * 2 ^ e1"
  proof (cases "e1 = e2")
    case True
    have "a * 2 ^ e1 * d \<le> c * 2 ^ e1 * b" using le by (simp add: mult_ac)
    then have "m1 \<le> m2" unfolding m1_def m2_def True [symmetric]
      using b d by (intro rne_frac_mono)
    with True show ?thesis by simp
  next
    case ne: False
    with e21 have lt: "Suc e2 \<le> e1" by simp
    then have "e1 - 1 < binade a b 0" unfolding e1_def by simp
    with binade_below [of a 0 "e1 - 1" b] a have h: "a * 2 ^ (e1 - 1) < 2 ^ 52 * b" by simp
    obtain e' where e': "e1 = Suc e'" using lt by (cases e1) simp_all
    from h e' have "2 * (a * 2 ^ e') \<le> 2 * (2 ^ 52 * b)" by simp
    then have "a * 2 ^ e1 \<le> 2 ^ 53 * b" unfolding e' by simp
    then have "m1 \<le> 2 ^ 53"
      unfolding m1_def using rne_frac_mono [of b 1 "a * 2 ^ e1" "2 ^ 53"] b
      by (simp add: rne_def)
    then have "m1 * 2 ^ e2 \<le> 2 ^ 53 * 2 ^ e2" by simp
    also have "\<dots> = 2 ^ 52 * 2 ^ Suc e2" by simp
    also have "\<dots> \<le> 2 ^ 52 * 2 ^ e1" using lt
      by (metis mult_le_mono2 one_le_numeral power_increasing)
    also have "\<dots> \<le> m2 * 2 ^ e1" using m2_ge by simp
    finally show ?thesis .
  qed
  show ?thesis
    using goal False c
    by (simp add: dle_def to_double_def e1_def e2_def m1_def m2_def)
qed

lemma to_double_exact:
  assumes "0 < a" "2 ^ 52 * b \<le> a * 2 ^ e" "e = 0 \<or> a * 2 ^ (e - 1) < 2 ^ 52 * b"
    and "0 < b" "a * 2 ^ e = q * b"
  shows "to_double a b = (q, e)"
proof -
  have "binade a b 0 = e" using assms(1-3) by (rule binade_eq)
  with assms(1,4,5) show ?thesis by (simp add: to_double_def rne_exact)
qed

lemma frac_div_mono:
  fixes a b c d :: nat
  assumes "0 < b" "0 < d" "a * d \<le> c * b"
  shows "a div b \<le> c div d"
proof -
  have "a div b = (a * d) div (b * d)" using assms by simp
  also have "\<dots> \<le> (c * b) div (b * d)" using assms(3) by (rule div_le_mono)
  also have "\<dots> = c div d" using assms by simp
  finally show ?thesis .
qed

lemma Math_round_mono:
  assumes "dle x y"
  shows "Math_round x \<le> Math_round y"
proof -
  have "(2 * fst x + 2 ^ snd x) * (2 * 2 ^ snd y) \<le> (2 * fst y + 2 ^ snd y) * (2 * 2 ^ snd x)"
    using assms by (simp add: dle_def algebra_simps)
  then show ?thesis unfolding Math_round_def by (intro frac_div_mono) simp_all
qed

lemma js_times_mono:
  assumes "dle x y"
  shows "dle (js_times x c) (js_times y c)"
  unfolding js_times_def using assms
  by (intro to_double_mono) (simp_all add: dle_def algebra_simps)

text \<open>The percentage is monotone in the count, 0 for no step and 100 for all of them.\<close>

lemma round_percent_mono:
  assumes "0 < n" "k \<le> k'"
  shows "round_percent k n \<le> round_percent k' n"
proof -
  have "dle (js_divide k n) (js_divide k' n)"
    unfolding js_divide_def using assms by (intro to_double_mono) simp_all
  then show ?thesis
    unfolding round_percent_def by (simp add: js_times_mono Math_round_mono)
qed

lemma js_divide_self: "0 < n \<Longrightarrow> js_divide n n = (2 ^ 52, 52)"
  unfolding js_divide_def by (rule to_double_exact) simp_all

lemma round_percent_full: "0 < n \<Longrightarrow> round_percent n n = 100"
proof -
  assume n: "0 < n"
  have "js_times (2 ^ 52, 52) 100 = (100 * 2 ^ 46, 46)"
    unfolding js_times_def by (rule to_double_exact) simp_all
  with n show ?thesis
    by (simp add: round_percent_def js_divide_self Math_round_def)
qed

lemma round_percent_zero: "round_percent 0 n = 0"
  by (simp add: round_percent_def js_divide_def js_times_def to_double_def Math_round_def)

lemma round_percent_range:
  assumes "0 < n" "k \<le> n"
  shows "0 \<le> round_percent k n \<and> round_percent k n \<le> 100"
  using round_percent_mono [OF assms] round_percent_full [OF assms(1)]
  by (simp add: round_percent_def)

lemmas double_defs = round_percent_def Math_round_def js_times_def js_divide_def to_double_def
  rne_def binade.simps

lemma round_percent_values:
  "round_percent 1 2 = 50" "round_percent 1 3 = 33" "round_percent 2 3 = 67"
  "round_percent 1 4 = 25" "round_percent 3 4 = 75" "round_percent 23 40 = 57"
  by (simp_all add: double_defs)

lemma round_percent_counts:
  "round_percent (Suc 0) (Suc 0) = 100"
  "round_percent (Suc 0) (Suc (Suc 0)) = 50"
  "round_percent (Suc (Suc 0)) (Suc (Suc 0)) = 100"
  "round_percent (Suc 0) (Suc (Suc (Suc 0))) = 33"
  "round_percent (Suc (Suc 0)) (Suc (Suc (Suc 0))) = 67"
  "round_percent (Suc (Suc (Suc 0))) (Suc (Suc (Suc 0))) = 100"
  using round_percent_values round_percent_full [of "Suc 0"] round_percent_full [of "Suc (Suc 0)"]
    round_percent_full [of "Suc (Suc (Suc 0))"]
  by (simp_all add: numeral_2_eq_2 numeral_3_eq_3)

section \<open>Properties of the template resolver\<close>

lemma value_at_undefined [simp]: "value_at JUndefined segs = JUndefined"
  by (cases segs) simp_all

lemma member_as_mapping:
  "typeof v = ''object'' \<Longrightarrow> v \<noteq> JNull \<Longrightarrow>
   member v k = (case as_mapping v k of None \<Rightarrow> JUndefined | Some w \<Rightarrow> w)"
proof (cases v)
  case (JPrototype p)
  then show ?thesis
    by (cases p)
       (simp_all add: object_prototype_get_def array_prototype_get_def inherited_by_objects_def
          inherited_by_arrays_def)
qed (simp_all add: obj_get_def arr_get_def object_prototype_get_def array_prototype_get_def
       inherited_by_objects_def inherited_by_arrays_def split: option.splits)

lemma getNestedValue_loop_value_at:
  "getNestedValue_loop v segs = Inr (value_at v segs)"
proof (induction segs arbitrary: v)
  case Nil
  show ?case by simp
next
  case (Cons seg segs)
  show ?case
  proof (cases "typeof v = ''object'' \<and> v \<noteq> JNull")
    case True
    then have "v \<noteq> JUndefined" by auto
    with True show ?thesis
      using Cons.IH [of "member v seg"]
      by (simp add: member_as_mapping split: option.splits)
  next
    case False
    then show ?thesis by (cases v) simp_all
  qed
qed




lemma resolveTemplate_total:
  "resolveTemplate t ctx =
     Inr (if is_template t then value_at ctx (split_dot (trim (slice_2_m2 t))) else JStr t)"
  by (simp add: resolveTemplate_def is_template_def getNestedValue_def
      getNestedValue_loop_value_at)




text \<open>
  The claim as it stands fails on inherited members and on the key \<open>__proto__\<close>: in the
  context \<open>{payload: {}}\<close> the path \<open>payload.toString\<close> names no entry of the mapping, yet
  it resolves to a function, not to the absent value; and the entry \<open>__proto__\<close> of an
  input mapping is missing from the result, although no template or plain value should
  remove an entry.
\<close>

theorem template_inherited_member_counterexample:
  "resolveTemplate ''{{payload.toString}}'' (JObj [(''payload'', JObj [])])
     = Inr (JFunction ''Object.prototype.toString'')
   \<and> resolveTemplate ''{{payload.toString}}'' (JObj [(''payload'', JObj [])]) \<noteq> Inr JUndefined
   \<and> resolveTemplates [(''__proto__'', JStr ''plain''), (''url'', JStr ''{{payload.url}}'')]
        (JObj [(''payload'', JObj [(''url'', JStr ''u'')])])
     = Inr [(''url'', JStr ''u'')]"
  by (simp add: resolveTemplate_def resolveTemplates_def startsWith_def endsWith_def
      slice_2_m2_def trim_def is_space_def getNestedValue_def obj_get_def
      object_prototype_get_def object_prototype_methods_def assign_def)

section \<open>Properties of backend selection\<close>







lemma ex_edge_registry_eq:
  "ex_edge_registry = [(''ray'', ex_ray), (''edge'', ex_edge), (''modal'', ex_modal)]"
  by (simp add: ex_edge_registry_def registerBackend_def ex_ray_def ex_edge_def ex_modal_def)



text \<open>
  The claim as it stands fails where a resource query throws.  The registry holds \<open>edge\<close>
  and then \<open>modal\<close>, both healthy; \<open>modal\<close> is the first healthy backend whose
  \<open>getResources()\<close> reports an available GPU, so the claimed policy selects it for a task
  that requires a GPU, but the query of \<open>edge\<close> throws first and the selection is
  rejected.
\<close>

theorem selectBackend_throwing_query_counterexample:
  "find reports_available_gpu (healthy_in_order ex_edge_registry) = Some ex_modal
   \<and> requires_gpu (ex_single None True)
   \<and> selectBackend ex_edge_registry (ex_single None True) = Inl (Error ''driver not loaded'')
   \<and> selectBackend ex_edge_registry (ex_single None True) \<noteq> Inr ex_modal"
  by (simp add: ex_edge_registry_eq healthy_in_order_def selectBackend_def requires_gpu_def
      ex_single_def reports_available_gpu_def ex_ray_def ex_edge_def ex_modal_def)

section \<open>Properties of the retry loop\<close>

lemma retry_loop_success:
  assumes "a \<le> k" "k \<le> n" "list_all (fails ex) [a..<k]" "fst (ex k) = Inr v"
  shows "retry_loop rc (int n) (base_delay rc) ex (int a) le tr =
           (Inr v, tr @ concat (map (failed_round rc n ex) [a..<k]) @ final_round n ex k)"
  using assms
proof (induction "k - a" arbitrary: a le tr)
  case 0
  then have ak: "a = k" by simp
  obtain ms where exk: "ex k = (Inr v, ms)"
    using "0.prems"(4) by (cases "ex k") simp
  show ?case
    using "0.prems"(2) exk
    by (subst retry_loop.simps) (simp add: ak final_round_def)
next
  case (Suc d)
  then have lt: "a < k" and an: "a < n" by simp_all
  have fa: "fails ex a" using Suc.prems(3) lt by (simp add: upt_conv_Cons)
  then obtain e ms where exa: "ex a = (Inl e, ms)"
    by (cases "ex a"; cases "fst (ex a)") (auto simp: fails_def)
  have rest: "list_all (fails ex) [Suc a..<k]"
    using Suc.prems(3) lt by (simp add: upt_conv_Cons)
  have d: "d = k - Suc a" using Suc.hyps(2) by simp
  have sl: "(if backoff rc = Some Exponential then base_delay rc * 2 ^ nat (int a - 1)
             else base_delay rc) = backoff_delay rc a"
    by (simp add: backoff_delay_def nat_diff_distrib')
  have step: "retry_loop rc (int n) (base_delay rc) ex (int a) le tr =
      retry_loop rc (int n) (base_delay rc) ex (int (Suc a)) (Some (as_Error e))
        (tr @ failed_round rc n ex a)"
    using an exa sl
    by (subst retry_loop.simps) (simp add: failed_round_def add.commute)
  have ih: "retry_loop rc (int n) (base_delay rc) ex (int (Suc a)) (Some (as_Error e))
        (tr @ failed_round rc n ex a) =
      (Inr v, (tr @ failed_round rc n ex a) @ concat (map (failed_round rc n ex) [Suc a..<k])
              @ final_round n ex k)"
    using Suc.hyps(1) [OF d _ Suc.prems(2) rest Suc.prems(4)] lt by simp
  show ?case
    using step ih lt by (simp add: upt_conv_Cons)
qed

lemma retry_loop_exhausted:
  assumes "a \<le> n" "list_all (fails ex) [a..<Suc n]"
  shows "retry_loop rc (int n) (base_delay rc) ex (int a) le tr =
           (Inl (as_Error (projl (fst (ex n)))),
            tr @ concat (map (failed_round rc n ex) [a..<n]) @ final_round n ex n)"
  using assms
proof (induction "n - a" arbitrary: a le tr)
  case 0
  then have an: "a = n" by simp
  have "fails ex n" using "0.prems"(2) an by simp
  then obtain e ms where exn: "ex n = (Inl e, ms)"
    by (cases "ex n"; cases "fst (ex n)") (auto simp: fails_def)
  have last: "retry_loop rc (int n) (base_delay rc) ex (int n + 1) (Some (as_Error e))
                (tr @ final_round n ex n) = (Inl (as_Error e), tr @ final_round n ex n)"
    by (subst retry_loop.simps) simp
  show ?case
    using exn last
    by (subst retry_loop.simps) (simp add: an final_round_def)
next
  case (Suc d)
  then have an: "a < n" by simp
  have fa: "fails ex a" using Suc.prems(2) an by (simp add: upt_conv_Cons)
  then obtain e ms where exa: "ex a = (Inl e, ms)"
    by (cases "ex a"; cases "fst (ex a)") (auto simp: fails_def)
  have rest: "list_all (fails ex) [Suc a..<Suc n]"
    using Suc.prems(2) an by (simp add: upt_conv_Cons)
  have d: "d = n - Suc a" using Suc.hyps(2) by simp
  have sl: "(if backoff rc = Some Exponential then base_delay rc * 2 ^ nat (int a - 1)
             else base_delay rc) = backoff_delay rc a"
    by (simp add: backoff_delay_def nat_diff_distrib')
  have step: "retry_loop rc (int n) (base_delay rc) ex (int a) le tr =
      retry_loop rc (int n) (base_delay rc) ex (int (Suc a)) (Some (as_Error e))
        (tr @ failed_round rc n ex a)"
    using an exa sl
    by (subst retry_loop.simps) (simp add: failed_round_def add.commute)
  have ih: "retry_loop rc (int n) (base_delay rc) ex (int (Suc a)) (Some (as_Error e))
        (tr @ failed_round rc n ex a) =
      (Inl (as_Error (projl (fst (ex n)))),
       (tr @ failed_round rc n ex a) @ concat (map (failed_round rc n ex) [Suc a..<n])
       @ final_round n ex n)"
    using Suc.hyps(1) [OF d _ rest] an by simp
  show ?case
    using step ih an by (simp add: upt_conv_Cons)
qed

lemma executeWithRetry_loop:
  assumes "retry t = Some rc" "attempts rc = Some (int n)" "2 \<le> n"
  shows "executeWithRetry t ex = retry_loop rc (int n) (base_delay rc) ex (int 1) None []"
  using assms
  by (auto simp: executeWithRetry_def base_delay_def split: option.splits)

text \<open>
  Claim C7, as amended.  With a retry policy of \<open>n \<ge> 2\<close> attempts: the observer is told
  the attempt number before each attempt; the first successful attempt \<open>k\<close> ends the loop
  with the executor's value; after each failed attempt but the last the loop sleeps the
  backoff delay (the base delay when fixed, \<open>delay \<times> 2^(attempt-1)\<close> when exponential);
  after \<open>n\<close> failed attempts the last error is raised (wrapped in an Error when it is not
  one).  With \<open>n \<le> 1\<close>, no \<open>attempts\<close> or no retry policy, the executor runs exactly once,
  nothing is retried and the observer is not called.
\<close>

theorem executeWithRetry_trace:
  "(retry t = Some rc \<and> attempts rc = Some (int n) \<and> 2 \<le> n \<longrightarrow>
      (1 \<le> k \<and> k \<le> n \<and> list_all (fails ex) [1..<k] \<and> fst (ex k) = Inr v \<longrightarrow>
         executeWithRetry t ex =
           (Inr v, concat (map (failed_round rc n ex) [1..<k]) @ final_round n ex k))
    \<and> (list_all (fails ex) [1..<Suc n] \<longrightarrow>
         executeWithRetry t ex =
           (Inl (as_Error (projl (fst (ex n)))),
            concat (map (failed_round rc n ex) [1..<n]) @ final_round n ex n)))
   \<and> ((retry t = None \<or> (\<exists>rc. retry t = Some rc \<and>
                              (attempts rc = None \<or> (\<exists>m. attempts rc = Some m \<and> m \<le> 1)))) \<longrightarrow>
        executeWithRetry t ex = (fst (ex 1), [Call (snd (ex 1))]))"
proof -
  have loop: "retry t = Some rc \<and> attempts rc = Some (int n) \<and> 2 \<le> n \<longrightarrow>
      (1 \<le> k \<and> k \<le> n \<and> list_all (fails ex) [1..<k] \<and> fst (ex k) = Inr v \<longrightarrow>
         executeWithRetry t ex =
           (Inr v, concat (map (failed_round rc n ex) [1..<k]) @ final_round n ex k))
    \<and> (list_all (fails ex) [1..<Suc n] \<longrightarrow>
         executeWithRetry t ex =
           (Inl (as_Error (projl (fst (ex n)))),
            concat (map (failed_round rc n ex) [1..<n]) @ final_round n ex n))"
  proof (intro impI conjI)
    assume h: "retry t = Some rc \<and> attempts rc = Some (int n) \<and> 2 \<le> n"
      and s: "1 \<le> k \<and> k \<le> n \<and> list_all (fails ex) [1..<k] \<and> fst (ex k) = Inr v"
    show "executeWithRetry t ex =
           (Inr v, concat (map (failed_round rc n ex) [1..<k]) @ final_round n ex k)"
      using executeWithRetry_loop [of t rc n ex] h s
        retry_loop_success [of 1 k n ex v rc None "[]"]
      by simp
  next
    assume h: "retry t = Some rc \<and> attempts rc = Some (int n) \<and> 2 \<le> n"
      and f: "list_all (fails ex) [1..<Suc n]"
    show "executeWithRetry t ex =
           (Inl (as_Error (projl (fst (ex n)))),
            concat (map (failed_round rc n ex) [1..<n]) @ final_round n ex n)"
      using executeWithRetry_loop [of t rc n ex] h f
        retry_loop_exhausted [of 1 n ex rc None "[]"]
      by simp
  qed
  have once: "(retry t = None \<or> (\<exists>rc. retry t = Some rc \<and>
                              (attempts rc = None \<or> (\<exists>m. attempts rc = Some m \<and> m \<le> 1)))) \<longrightarrow>
        executeWithRetry t ex = (fst (ex 1), [Call (snd (ex 1))])"
    by (auto simp: executeWithRetry_def)
  show ?thesis using loop once by blast
qed

theorem executeWithRetry_trace_witness:
  "executeWithRetry (ex_retrying (Some (ex_policy 3 Exponential))) flaky =
     (Inr (JStr ''ok''),
      [OnRetry 1 3, Call 2, Sleep 10, OnRetry 2 3, Call 2, Sleep 20, OnRetry 3 3, Call 2])
   \<and> executeWithRetry (ex_retrying (Some (ex_policy 2 Fixed))) flaky =
     (Inl (Error ''Temporary failure''), [OnRetry 1 2, Call 2, Sleep 10, OnRetry 2 2, Call 2])
   \<and> executeWithRetry (ex_retrying None) flaky = (Inl (Error ''Temporary failure''), [Call 2])"
proof -
  have u13: "[Suc 0..<3] = [Suc 0, 2]" and u12: "[Suc 0..<2] = [Suc 0]"
    and u123: "[Suc 0..<3] = [Suc 0, 2]"
    by (simp_all add: upt_conv_Cons)
  have a: "executeWithRetry (ex_retrying (Some (ex_policy 3 Exponential))) flaky =
     (Inr (JStr ''ok''),
      [OnRetry 1 3, Call 2, Sleep 10, OnRetry 2 3, Call 2, Sleep 20, OnRetry 3 3, Call 2])"
    using executeWithRetry_trace [of "ex_retrying (Some (ex_policy 3 Exponential))"
        "ex_policy 3 Exponential" 3 3 flaky "JStr ''ok''"]
    by (simp add: ex_retrying_def ex_policy_def flaky_def fails_def u13 failed_round_def
        final_round_def backoff_delay_def base_delay_def)
  have b: "executeWithRetry (ex_retrying (Some (ex_policy 2 Fixed))) flaky =
     (Inl (Error ''Temporary failure''), [OnRetry 1 2, Call 2, Sleep 10, OnRetry 2 2, Call 2])"
    using executeWithRetry_trace [of "ex_retrying (Some (ex_policy 2 Fixed))"
        "ex_policy 2 Fixed" 2 1 flaky "JStr ''ok''"]
    by (simp add: ex_retrying_def ex_policy_def flaky_def fails_def u12 u123 failed_round_def
        final_round_def backoff_delay_def base_delay_def)
  have c: "executeWithRetry (ex_retrying None) flaky = (Inl (Error ''Temporary failure''), [Call 2])"
    using executeWithRetry_trace [of "ex_retrying None" undefined 0 0 flaky undefined]
    by (simp add: ex_retrying_def flaky_def)
  show ?thesis using a b c by blast
qed

theorem executeWithRetry_observer_counterexample:
  "executeWithRetry (ex_retrying (Some (ex_policy 1 Fixed))) flaky
     = (Inl (Error ''Temporary failure''), [Call 2])
   \<and> OnRetry 1 1 \<notin> set (snd (executeWithRetry (ex_retrying (Some (ex_policy 1 Fixed))) flaky))"
  by (simp add: executeWithRetry_def ex_retrying_def ex_policy_def flaky_def)

section \<open>Invariants of the DAG scheduler\<close>

lemma set_status_fields [simp]:
  "results (set_status i f s) = results s"
  "completed (set_status i f s) = completed s"
  "failed (set_status i f s) = failed s"
  "running (set_status i f s) = running s"
  "parallelGroups (set_status i f s) = parallelGroups s"
  "now (set_status i f s) = now s"
  "progress (set_status i f s) = progress s"
  "map fst (stepStatuses (set_status i f s)) = map fst (stepStatuses s)"
proof -
  have "map fst (AList.map_entry i f xs) = map fst xs" for xs :: "(string \<times> StepStatus) list"
    by (induction xs) auto
  then show "map fst (stepStatuses (set_status i f s)) = map fst (stepStatuses s)"
    by (simp add: set_status_def)
qed (simp_all add: set_status_def)

lemma skip_step_effect:
  "step_effect stepId s (Returned None aw ms) (skip_step stepId marker s)"
  by (simp add: step_effect_def skip_step_def)

lemma settle_step_effect:
  "settle_step stepId step t0 go aw s = (out, s') \<Longrightarrow> step_effect stepId s out s'"
  by (auto simp: settle_step_def step_effect_def complete_step_def fail_step_def
      split: prod.splits sum.splits if_splits)


lemma step_effect_running:
  assumes "step_effect stepId (s\<lparr>running := List.insert stepId (running s)\<rparr>) out s'"
  shows "step_effect stepId s out s'"
proof -
  have r: "removeAll stepId (List.insert stepId (running s)) = removeAll stepId (running s)"
    by (simp add: List.insert_def)
  show ?thesis
    using assms unfolding step_effect_def by (simp add: r)
qed

lemma step_effect_status:
  assumes "step_effect stepId (set_status stepId f s) out s'"
  shows "step_effect stepId s out s'"
  using assms unfolding step_effect_def by simp

lemma executeStep_try_effect:
  "executeStep_try backends t res stepId step s = (out, s') \<Longrightarrow> step_effect stepId s out s'"
  unfolding executeStep_try_def Let_def
  by (auto split: if_splits sum.splits option.splits
      dest!: settle_step_effect intro: step_effect_status)


lemma executeStep_effect:
  "executeStep backends t res stepId step s = (out, s') \<Longrightarrow> step_effect stepId s out s'"
  unfolding executeStep_def Let_def resolveTemplate_total
  by (auto split: if_splits
      dest!: executeStep_try_effect intro: step_effect_running skip_step_effect)

lemma run_all_effect:
  assumes "run_all backends t res rs s = (outs, s')"
    and "distinct (map fst rs)" and "set (map fst rs) \<inter> terminal s = {}"
    and "distinct (completed s)" and "distinct (failed s)"
    and "set (completed s) \<inter> set (failed s) = {}"
  shows "terminal s' = terminal s \<union> set (map fst rs)
       \<and> distinct (completed s') \<and> distinct (failed s')
       \<and> set (completed s') \<inter> set (failed s') = {}
       \<and> (running s = [] \<longrightarrow> running s' = [])
       \<and> set (completed s) \<subseteq> set (completed s') \<and> set (failed s) \<subseteq> set (failed s')
       \<and> length (completed s) \<le> length (completed s')
       \<and> now s' = now s \<and> progress s' = progress s
       \<and> first_rejected outs = None
       \<and> (first_error outs = None \<longrightarrow> failed s' = failed s)
       \<and> (first_error outs \<noteq> None \<longrightarrow> failed s' \<noteq> [])"
  using assms
proof (induction rs arbitrary: res s outs s')
  case Nil
  then show ?case by auto
next
  case (Cons r rs)
  obtain stepId step where r: "r = (stepId, step)" by (cases r)
  obtain out s1 where e: "executeStep backends t res stepId step s = (out, s1)"
    by (cases "executeStep backends t res stepId step s")
  obtain outs' where rest: "run_all backends t (visible_after out stepId s1 res) rs s1 = (outs', s')"
    and outs: "outs = out # outs'"
    using Cons.prems(1) r e by (auto split: prod.splits)
  have eff: "step_effect stepId s out s1" using executeStep_effect [OF e] .
  have fresh: "stepId \<notin> set (completed s)" "stepId \<notin> set (failed s)"
    using Cons.prems(3) r by (auto simp: terminal_def)
  from eff obtain err aw ms where out: "out = Returned err aw ms"
    and run1: "running s1 = removeAll stepId (running s)"
    and now1: "now s1 = now s" and pr1: "progress s1 = progress s"
    and cf: "err = None \<and> completed s1 = stepId # completed s \<and> failed s1 = failed s
           \<or> err \<noteq> None \<and> failed s1 = stepId # failed s \<and> completed s1 = completed s"
    using fresh by (auto simp: step_effect_def)
  have t1: "terminal s1 = insert stepId (terminal s)"
    using cf by (auto simp: terminal_def)
  have d1: "distinct (completed s1)" "distinct (failed s1)"
    "set (completed s1) \<inter> set (failed s1) = {}"
    using cf fresh Cons.prems(4,5,6) by auto
  have p1: "distinct (map fst rs)" "set (map fst rs) \<inter> terminal s1 = {}"
    using Cons.prems(2,3) r t1 by auto
  note ih = Cons.IH [OF rest p1 d1]
  have mono1: "set (completed s) \<subseteq> set (completed s1)" "set (failed s) \<subseteq> set (failed s1)"
    "length (completed s) \<le> length (completed s1)"
    using cf by auto
  have fe: "first_error outs = (if err = None then first_error outs' else err)"
    using outs out by (cases err) simp_all
  have fr: "first_rejected outs = None" using outs out ih by simp
  have a: "terminal s' = terminal s \<union> set (map fst (r # rs))"
    using ih t1 r by auto
  have b: "running s = [] \<longrightarrow> running s' = []" using ih run1 by simp
  have c: "set (completed s) \<subseteq> set (completed s')" "set (failed s) \<subseteq> set (failed s')"
    "length (completed s) \<le> length (completed s')"
    using ih mono1 by auto
  have d: "first_error outs = None \<longrightarrow> failed s' = failed s"
    using fe cf ih by auto
  have f: "first_error outs \<noteq> None \<longrightarrow> failed s' \<noteq> []"
  proof (cases "err = None")
    case True
    then show ?thesis using fe ih by simp
  next
    case False
    then have "stepId \<in> set (failed s1)" using cf by auto
    then have "stepId \<in> set (failed s')" using ih by auto
    then show ?thesis by auto
  qed
  show ?case
    using a b c d f fr ih now1 pr1 by simp
qed

lemma build_stepMap_keys:
  "distinct (map fst (build_stepMap ss)) \<and> set (map fst (build_stepMap ss)) = set (declared_ids ss)"
proof -
  have g: "distinct (map fst m) \<Longrightarrow>
      distinct (map fst (foldl (\<lambda>m (i, step). AList.update (stepIdOf i step) step m) m ps))
      \<and> set (map fst (foldl (\<lambda>m (i, step). AList.update (stepIdOf i step) step m) m ps))
          = set (map fst m) \<union> set (map (\<lambda>(i, step). stepIdOf i step) ps)"
    for m :: "(string \<times> Step) list" and ps :: "(nat \<times> Step) list"
  proof (induction ps arbitrary: m)
    case Nil
    then show ?case by simp
  next
    case (Cons p ps)
    obtain i step where p: "p = (i, step)" by (cases p)
    have d: "distinct (map fst (AList.update (stepIdOf i step) step m))"
      using Cons.prems by (rule distinct_update)
    have k: "set (map fst (AList.update (stepIdOf i step) step m))
             = insert (stepIdOf i step) (set (map fst m))"
      using dom_update [of "stepIdOf i step" step m] by simp
    show ?case
      using Cons.IH [OF d] k p by simp
  qed
  show ?thesis
    using g [of "[]" "enumerate 0 ss"] by (simp add: build_stepMap_def declared_ids_def)
qed

lemma length_declared_ids [simp]: "length (declared_ids ss) = length ss"
  by (simp add: declared_ids_def)

lemma length_build_stepMap: "length (build_stepMap ss) \<le> length ss"
proof -
  have "length (build_stepMap ss) = card (set (declared_ids ss))"
    using build_stepMap_keys [of ss] distinct_card [of "map fst (build_stepMap ss)"] by simp
  also have "\<dots> \<le> length (declared_ids ss)" by (rule card_length)
  finally show ?thesis by simp
qed

lemma length_build_stepMap_less:
  assumes "\<not> distinct (declared_ids ss)"
  shows "length (build_stepMap ss) < length ss"
proof -
  have "length (build_stepMap ss) = card (set (declared_ids ss))"
    using build_stepMap_keys [of ss] distinct_card [of "map fst (build_stepMap ss)"] by simp
  moreover have "card (set (declared_ids ss)) \<noteq> length (declared_ids ss)"
    using assms card_distinct by blast
  moreover have "card (set (declared_ids ss)) \<le> length (declared_ids ss)" by (rule card_length)
  ultimately show ?thesis by simp
qed

lemma runnable_facts:
  assumes "distinct (map fst stepMap)"
  shows "distinct (map fst (getRunnableSteps stepMap s))"
    and "set (map fst (getRunnableSteps stepMap s)) \<inter> terminal s = {}"
    and "set (map fst (getRunnableSteps stepMap s)) \<subseteq> set (map fst stepMap)"
  using assms
  by (auto simp: getRunnableSteps_def canRun_def terminal_def distinct_map_filter split: if_splits)

lemma init_state_inv: "dag_inv stepMap (init_state stepMap)"
  by (simp add: dag_inv_def init_state_def terminal_def)

lemma dag_inv_count:
  assumes "dag_inv stepMap s" "distinct (map fst stepMap)"
  shows "length (completed s) + length (failed s) \<le> length stepMap"
    and "length (completed s) \<le> length stepMap"
proof -
  have "length (completed s) + length (failed s) = card (set (completed s)) + card (set (failed s))"
    using assms(1) by (simp add: dag_inv_def distinct_card)
  also have "\<dots> = card (terminal s)"
    using assms(1) by (simp add: dag_inv_def terminal_def card_Un_disjoint)
  also have "\<dots> \<le> card (set (map fst stepMap))"
    using assms(1) by (intro card_mono) (simp_all add: dag_inv_def)
  also have "\<dots> = length stepMap"
    using assms(2) distinct_card [of "map fst stepMap"] by simp
  finally show "length (completed s) + length (failed s) \<le> length stepMap" .
  then show "length (completed s) \<le> length stepMap" by simp
qed

lemma tick_effect:
  assumes inv: "dag_inv stepMap s" and d: "distinct (map fst stepMap)"
    and ne: "getRunnableSteps stepMap s \<noteq> []"
    and r: "run_all backends t res (getRunnableSteps stepMap s) s0 = (outs, s1)"
    and s0: "completed s0 = completed s" "failed s0 = failed s" "running s0 = running s"
      "now s0 = now s" "progress s0 = progress s"
  shows "dag_inv stepMap s1" and "terminal s \<subset> terminal s1"
    and "set (completed s) \<subseteq> set (completed s1)"
    and "length (completed s) \<le> length (completed s1)"
    and "progress s1 = progress s"
    and "thrown_by outs = first_error outs"
    and "first_error outs = None \<longrightarrow> failed s1 = failed s"
    and "first_error outs \<noteq> None \<longrightarrow> failed s1 \<noteq> []"
proof -
  let ?rs = "getRunnableSteps stepMap s"
  have t0: "terminal s0 = terminal s" using s0 by (simp add: terminal_def)
  have pre: "distinct (map fst ?rs)" "set (map fst ?rs) \<inter> terminal s0 = {}"
    "distinct (completed s0)" "distinct (failed s0)" "set (completed s0) \<inter> set (failed s0) = {}"
    using runnable_facts [OF d, of s] inv s0 t0 by (simp_all add: dag_inv_def)
  note eff = run_all_effect [OF r pre]
  have sub: "set (map fst ?rs) \<subseteq> set (map fst stepMap)" using runnable_facts(3) [OF d] .
  show "dag_inv stepMap s1"
    using eff inv s0 t0 sub by (auto simp: dag_inv_def)
  obtain x where x: "x \<in> set (map fst ?rs)" using ne by (cases ?rs) auto
  then have "x \<notin> terminal s" using pre(2) t0 by auto
  moreover have "terminal s1 = terminal s \<union> set (map fst ?rs)" using eff t0 by simp
  ultimately show "terminal s \<subset> terminal s1" using x by auto
  show "set (completed s) \<subseteq> set (completed s1)" using eff s0 by simp
  show "length (completed s) \<le> length (completed s1)" using eff s0 by simp
  show "progress s1 = progress s" using eff s0 by simp
  show "thrown_by outs = first_error outs" using eff by (simp add: thrown_by_def)
  show "first_error outs = None \<longrightarrow> failed s1 = failed s" using eff s0 by simp
  show "first_error outs \<noteq> None \<longrightarrow> failed s1 \<noteq> []" using eff by simp
qed

lemma dag_loop_post:
  assumes "dag_loop fuel backends t stepMap s = Some (err, s')"
    and "dag_inv stepMap s" and "distinct (map fst stepMap)"
  shows "dag_inv stepMap s'
     \<and> length (completed s) \<le> length (completed s')
     \<and> (\<exists>cs. progress s' = progress s @ map (\<lambda>c. round_percent c (length (steps_of t))) cs
            \<and> sorted cs
            \<and> list_all (\<lambda>c. length (completed s) \<le> c \<and> c \<le> length (completed s')) cs
            \<and> (err = None \<longrightarrow> (if cs = [] then s' = s else last cs = length (completed s'))))
     \<and> (err = None \<longrightarrow> failed s' = failed s
            \<and> length (steps_of t) \<le> length (completed s') + length (failed s'))
     \<and> (\<forall>e. err = Some e \<longrightarrow>
            e = Error (deadlock_message (remaining_tasks (steps_of t) s')) \<or> failed s' \<noteq> [])"
  using assms
proof (induction fuel arbitrary: s)
  case 0
  then show ?case by simp
next
  case (Suc fuel)
  let ?n = "length (steps_of t)"
  let ?rs = "getRunnableSteps stepMap s"
  have nil: "\<And>u v. (\<exists>cs. progress u = progress u @ map (\<lambda>c. round_percent c ?n) cs \<and> sorted cs
            \<and> list_all (\<lambda>c. length (completed u) \<le> c \<and> c \<le> length (completed u)) cs
            \<and> (v = None \<longrightarrow> (if cs = [] then u = u else last cs = length (completed u))))"
    by (rule_tac x = "[]" in exI) simp
  show ?case
  proof (cases "length (completed s) + length (failed s) < ?n")
    case False
    then have "err = None" "s' = s" using Suc.prems(1) by simp_all
    then show ?thesis using Suc.prems(2) False nil [of s None] by simp
  next
    case guard: True
    show ?thesis
    proof (cases "?rs = []")
      case True
      have "running s = []" using Suc.prems(2) by (simp add: dag_inv_def)
      then have "err = Some (Error (deadlock_message (remaining_tasks (steps_of t) s)))" "s' = s"
        using Suc.prems(1) guard True by auto
      then show ?thesis using Suc.prems(2) nil [of s err] by simp
    next
      case ne: False
      let ?s0 = "if 1 < length ?rs then s\<lparr>parallelGroups := parallelGroups s @ [map fst ?rs]\<rparr> else s"
      obtain outs s1 where r: "run_all backends t (results s) ?rs ?s0 = (outs, s1)"
        by (cases "run_all backends t (results s) ?rs ?s0")
      have s0: "completed ?s0 = completed s" "failed ?s0 = failed s" "running ?s0 = running s"
        "now ?s0 = now s" "progress ?s0 = progress s"
        by simp_all
      note te = tick_effect [OF Suc.prems(2,3) ne r s0]
      let ?s2 = "s1\<lparr>now := now s + fold max (map outcome_ms outs) 0\<rparr>"
      have inv2: "dag_inv stepMap ?s2" using te(1) by (simp add: dag_inv_def terminal_def)
      show ?thesis
      proof (cases "first_error outs")
        case (Some e)
        then have res: "err = Some e" "s' = ?s2"
          using Suc.prems(1) guard ne r te(6) by (simp_all add: Let_def)
        have f: "failed s' \<noteq> []" using te(8) Some res by simp
        have "\<exists>cs. progress s' = progress s @ map (\<lambda>c. round_percent c ?n) cs \<and> sorted cs
            \<and> list_all (\<lambda>c. length (completed s) \<le> c \<and> c \<le> length (completed s')) cs
            \<and> (err = None \<longrightarrow> (if cs = [] then s' = s else last cs = length (completed s')))"
          using res te(5) by (rule_tac x = "[]" in exI) simp
        then show ?thesis using inv2 res te(4) f by simp
      next
        case None
        let ?s3 = "?s2\<lparr>progress := progress ?s2 @ [round_percent (length (completed ?s2)) ?n]\<rparr>"
        have rec: "dag_loop fuel backends t stepMap ?s3 = Some (err, s')"
          using Suc.prems(1) guard ne r te(6) None by (simp add: Let_def)
        have inv3: "dag_inv stepMap ?s3" using inv2 by (simp add: dag_inv_def terminal_def)
        note ih = Suc.IH [OF rec inv3 Suc.prems(3)]
        from ih obtain cs where cs: "progress s' = progress ?s3 @ map (\<lambda>c. round_percent c ?n) cs"
          "sorted cs" "list_all (\<lambda>c. length (completed ?s3) \<le> c \<and> c \<le> length (completed s')) cs"
          "err = None \<longrightarrow> (if cs = [] then s' = ?s3 else last cs = length (completed s'))"
          by blast
        have l13: "length (completed s1) \<le> length (completed s')" using ih by simp
        let ?cs = "length (completed s1) # cs"
        have p: "progress s' = progress s @ map (\<lambda>c. round_percent c ?n) ?cs"
          using cs(1) te(5) by simp
        have so: "sorted ?cs" using cs(2,3) by (auto simp: list_all_iff)
        have la: "list_all (\<lambda>c. length (completed s) \<le> c \<and> c \<le> length (completed s')) ?cs"
          using cs(3) te(4) l13 by (auto simp: list_all_iff)
        have lst: "err = None \<longrightarrow> last ?cs = length (completed s')"
          using cs(4) by (cases "cs = []") auto
        have ex: "\<exists>cs. progress s' = progress s @ map (\<lambda>c. round_percent c ?n) cs \<and> sorted cs
            \<and> list_all (\<lambda>c. length (completed s) \<le> c \<and> c \<le> length (completed s')) cs
            \<and> (err = None \<longrightarrow> (if cs = [] then s' = s else last cs = length (completed s')))"
          using p so la lst by (rule_tac x = "?cs" in exI) simp
        have fl: "err = None \<longrightarrow> failed s' = failed s"
          using ih te(7) None by simp
        have i1: "dag_inv stepMap s'" using ih by blast
        have i2: "err = None \<longrightarrow> length (steps_of t) \<le> length (completed s') + length (failed s')"
          using ih by blast
        have i3: "\<forall>e. err = Some e \<longrightarrow>
            e = Error (deadlock_message (remaining_tasks (steps_of t) s')) \<or> failed s' \<noteq> []"
          using ih by blast
        have i4: "length (completed s) \<le> length (completed s')" using te(4) l13 by simp
        show ?thesis using i1 i4 ex fl i2 i3 by blast
      qed
    qed
  qed
qed

lemma dag_loop_returns:
  assumes "dag_inv stepMap s" and "distinct (map fst stepMap)"
    and "card (set (map fst stepMap) - terminal s) < fuel"
  shows "\<exists>r. dag_loop fuel backends t stepMap s = Some r"
  using assms
proof (induction fuel arbitrary: s)
  case 0
  then show ?case by simp
next
  case (Suc fuel)
  let ?n = "length (steps_of t)"
  let ?rs = "getRunnableSteps stepMap s"
  show ?case
  proof (cases "length (completed s) + length (failed s) < ?n")
    case False
    then show ?thesis by simp
  next
    case guard: True
    show ?thesis
    proof (cases "?rs = []")
      case True
      have "running s = []" using Suc.prems(1) by (simp add: dag_inv_def)
      then show ?thesis using guard True by simp
    next
      case ne: False
      let ?s0 = "if 1 < length ?rs then s\<lparr>parallelGroups := parallelGroups s @ [map fst ?rs]\<rparr> else s"
      obtain outs s1 where r: "run_all backends t (results s) ?rs ?s0 = (outs, s1)"
        by (cases "run_all backends t (results s) ?rs ?s0")
      have s0: "completed ?s0 = completed s" "failed ?s0 = failed s" "running ?s0 = running s"
        "now ?s0 = now s" "progress ?s0 = progress s"
        by simp_all
      note te = tick_effect [OF Suc.prems(1,2) ne r s0]
      let ?s2 = "s1\<lparr>now := now s + fold max (map outcome_ms outs) 0\<rparr>"
      let ?s3 = "?s2\<lparr>progress := progress ?s2 @ [round_percent (length (completed ?s2)) ?n]\<rparr>"
      have inv3: "dag_inv stepMap ?s3" using te(1) by (simp add: dag_inv_def terminal_def)
      have t3: "terminal ?s3 = terminal s1" by (simp add: terminal_def)
      have "set (map fst stepMap) - terminal s1 \<subset> set (map fst stepMap) - terminal s"
        using te(1,2) by (auto simp: dag_inv_def)
      then have "card (set (map fst stepMap) - terminal s1) < card (set (map fst stepMap) - terminal s)"
        by (intro psubset_card_mono) simp_all
      then have c3: "card (set (map fst stepMap) - terminal ?s3) < fuel"
        using Suc.prems(3) t3 by simp
      note ih = Suc.IH [OF inv3 Suc.prems(2) c3]
      show ?thesis
      proof (cases "first_error outs")
        case (Some e)
        then show ?thesis using guard ne r te(6) by (simp add: Let_def)
      next
        case None
        then show ?thesis using guard ne r te(6) ih by (simp add: Let_def)
      qed
    qed
  qed
qed

section \<open>Evaluating the runners on examples\<close>

lemmas run_defs = processTask_def processPipelineDAG_def steps_of_def build_stepMap_def
  init_state_def stepIdOf_def is_set_def getRunnableSteps_def canRun_def deps_of_def
  executeStep_def executeStep_try_def settle_step_def skip_step_def complete_step_def
  fail_step_def set_status_def visible_after_def thrown_by_def round_percent_zero
  round_percent_counts
  mk_pipeline_def mk_step_def enumerate_eq_zip upt_conv_Cons obj_get_def since_def
  is_optional_def hasDependencies_def as_pipeline_def input_of_def resolveTemplates_def
  runWithTimeout_def executeBackend_def stepTask_def or_else_def num_or_else_def
  timeoutSeconds_def selectBackend_def executeWithRetry_def elapsed_def dag_context_def
  remaining_tasks_def deadlock_message_def declared_ids_def

lemma ex_registry_modal: "map_of ex_registry ''modal'' = Some ex_modal"
  by (simp add: ex_registry_def registerBackend_def ex_ray_def ex_local_def ex_modal_def)

lemmas seq_defs = processPipelineSequential_def seq_step_def seq_run_def seq_finish_def
  seq_context_def

lemmas template_defs = resolveTemplate_def startsWith_def endsWith_def slice_2_m2_def trim_def
  is_space_def getNestedValue_def array_index_def is_digit_def digit_val_def arr_get_def

lemma step_names:
  "string_of_nat 0 = ''0''" "string_of_nat (Suc 0) = ''1''" "string_of_nat (Suc (Suc 0)) = ''2''"
  "string_of_nat (Suc (Suc (Suc 0))) = ''3''" "string_of_nat 1 = ''1''" "string_of_nat 2 = ''2''"
  "string_of_nat 3 = ''3''"
  by (simp_all add: string_of_nat.simps digit_char_def)

section \<open>Runs of the DAG scheduler\<close>

text \<open>An induction rule for the scheduling loop: a property of the state at the loop head,
  of what the loop throws and of the state it ends in holds if it holds where the loop
  stops, where it detects a deadlock and where a tick throws, and is carried backwards
  over a tick that does not throw.\<close>

lemma dag_loop_rule:
  assumes run: "dag_loop fuel backends t stepMap s = Some (err, s')"
    and inv: "dag_inv stepMap s" and d: "distinct (map fst stepMap)"
    and stop: "\<And>u. dag_inv stepMap u \<Longrightarrow>
        \<not> length (completed u) + length (failed u) < length (steps_of t) \<Longrightarrow> P u None u"
    and stuck: "\<And>u. dag_inv stepMap u \<Longrightarrow>
        length (completed u) + length (failed u) < length (steps_of t) \<Longrightarrow>
        getRunnableSteps stepMap u = [] \<Longrightarrow>
        P u (Some (Error (deadlock_message (remaining_tasks (steps_of t) u)))) u"
    and throws: "\<And>u outs u1 e. dag_inv stepMap u \<Longrightarrow>
        length (completed u) + length (failed u) < length (steps_of t) \<Longrightarrow>
        getRunnableSteps stepMap u \<noteq> [] \<Longrightarrow>
        run_all backends t (results u) (getRunnableSteps stepMap u)
          (if 1 < length (getRunnableSteps stepMap u)
           then u\<lparr>parallelGroups := parallelGroups u @ [map fst (getRunnableSteps stepMap u)]\<rparr>
           else u) = (outs, u1) \<Longrightarrow>
        first_error outs = Some e \<Longrightarrow>
        P u (Some e) (u1\<lparr>now := now u + fold max (map outcome_ms outs) 0\<rparr>)"
    and continues: "\<And>u outs u1 err u'. dag_inv stepMap u \<Longrightarrow>
        length (completed u) + length (failed u) < length (steps_of t) \<Longrightarrow>
        getRunnableSteps stepMap u \<noteq> [] \<Longrightarrow>
        run_all backends t (results u) (getRunnableSteps stepMap u)
          (if 1 < length (getRunnableSteps stepMap u)
           then u\<lparr>parallelGroups := parallelGroups u @ [map fst (getRunnableSteps stepMap u)]\<rparr>
           else u) = (outs, u1) \<Longrightarrow>
        first_error outs = None \<Longrightarrow>
        dag_inv stepMap
          (u1\<lparr>now := now u + fold max (map outcome_ms outs) 0,
              progress := progress u1 @ [round_percent (length (completed u1)) (length (steps_of t))]\<rparr>) \<Longrightarrow>
        P (u1\<lparr>now := now u + fold max (map outcome_ms outs) 0,
              progress := progress u1 @ [round_percent (length (completed u1)) (length (steps_of t))]\<rparr>)
          err u' \<Longrightarrow>
        P u err u'"
  shows "P s err s'"
  using run inv
proof (induction fuel arbitrary: s)
  case 0
  then show ?case by simp
next
  case (Suc fuel)
  let ?n = "length (steps_of t)"
  let ?rs = "getRunnableSteps stepMap s"
  show ?case
  proof (cases "length (completed s) + length (failed s) < ?n")
    case False
    then have "err = None" "s' = s" using Suc.prems(1) by simp_all
    then show ?thesis using stop [OF Suc.prems(2) False] by simp
  next
    case guard: True
    show ?thesis
    proof (cases "?rs = []")
      case True
      have "running s = []" using Suc.prems(2) by (simp add: dag_inv_def)
      then have "err = Some (Error (deadlock_message (remaining_tasks (steps_of t) s)))" "s' = s"
        using Suc.prems(1) guard True by auto
      then show ?thesis using stuck [OF Suc.prems(2) guard True] by simp
    next
      case ne: False
      let ?s0 = "if 1 < length ?rs then s\<lparr>parallelGroups := parallelGroups s @ [map fst ?rs]\<rparr> else s"
      obtain outs s1 where r: "run_all backends t (results s) ?rs ?s0 = (outs, s1)"
        by (cases "run_all backends t (results s) ?rs ?s0")
      have s0: "completed ?s0 = completed s" "failed ?s0 = failed s" "running ?s0 = running s"
        "now ?s0 = now s" "progress ?s0 = progress s"
        by simp_all
      note te = tick_effect [OF Suc.prems(2) d ne r s0]
      show ?thesis
      proof (cases "first_error outs")
        case (Some e)
        then have res: "err = Some e" "s' = s1\<lparr>now := now s + fold max (map outcome_ms outs) 0\<rparr>"
          using Suc.prems(1) guard ne r te(6) by (simp_all add: Let_def)
        show ?thesis using throws [OF Suc.prems(2) guard ne r Some] res by simp
      next
        case None
        let ?s3 = "s1\<lparr>now := now s + fold max (map outcome_ms outs) 0,
              progress := progress s1 @ [round_percent (length (completed s1)) ?n]\<rparr>"
        have rec: "dag_loop fuel backends t stepMap ?s3 = Some (err, s')"
          using Suc.prems(1) guard ne r te(6) None by (simp add: Let_def)
        have inv3: "dag_inv stepMap ?s3" using te(1) by (simp add: dag_inv_def terminal_def)
        show ?thesis
          using continues [OF Suc.prems(2) guard ne r None inv3 Suc.IH [OF rec inv3]] .
      qed
    qed
  qed
qed

subsection \<open>What the status records say of a failure\<close>

lemma status_of_set_status:
  "status_of (set_status i f s) j = (if j = i then map_option f (status_of s i) else status_of s j)"
  by (simp add: status_of_def set_status_def map_of_map_entry split: option.splits)

lemma status_of_fields [simp]:
  "status_of (s\<lparr>running := r\<rparr>) = status_of s"
  "status_of (s\<lparr>completed := c\<rparr>) = status_of s"
  "status_of (s\<lparr>failed := f\<rparr>) = status_of s"
  "status_of (s\<lparr>results := rs\<rparr>) = status_of s"
  "status_of (s\<lparr>now := n\<rparr>) = status_of s"
  "status_of (s\<lparr>progress := p\<rparr>) = status_of s"
  "status_of (s\<lparr>parallelGroups := g\<rparr>) = status_of s"
  by (simp_all add: status_of_def fun_eq_iff)

lemma status_of_known: "status_of s i \<noteq> None \<longleftrightarrow> i \<in> set (map fst (stepStatuses s))"
  by (simp add: status_of_def map_of_eq_None_iff)

lemma settle_step_failure:
  assumes "settle_step stepId step t0 go aw s = (Returned (Some e) aw' ms, s')"
    and "status_of s stepId \<noteq> None"
  shows "failure_recorded e stepId s' \<and> \<not> is_optional step"
proof -
  obtain r d ra where go: "go = ((r, d), ra)" by (cases go) auto
  obtain e0 where r: "r = Inl e0"
    using assms(1) go by (cases r) (auto simp: settle_step_def)
  have opt: "\<not> is_optional step"
    using assms(1) go r by (auto simp: settle_step_def fail_step_def split: if_splits)
  then have e: "e = as_Error e0"
    and s': "s' = (set_status stepId (\<lambda>st. st\<lparr>status := Failed, completedAt := Some (t0 + d),
                                      duration := since (startedAt st) (t0 + d),
                                      error := Some (errorMsg e0)\<rparr>)
                    (set_status stepId (\<lambda>st. st\<lparr>retryAttempt := ra\<rparr>) s))
           \<lparr>running := removeAll stepId (running s),
            failed := List.insert stepId (failed s)\<rparr>"
    using assms(1) go r by (auto simp: settle_step_def fail_step_def)
  have m: "errorMsg (as_Error e0) = errorMsg e0" "as_Error (as_Error e0) = as_Error e0"
    by (cases e0; simp)+
  obtain st where st: "status_of s stepId = Some st" using assms(2) by auto
  show ?thesis
    using opt by (simp add: failure_recorded_def s' e m status_of_set_status st)
qed

lemma settle_step_others:
  assumes "settle_step stepId step t0 go aw s = (out, s')" and "j \<noteq> stepId"
  shows "status_of s' j = status_of s j"
  using assms
  by (auto simp: settle_step_def complete_step_def fail_step_def status_of_set_status
      split: prod.splits sum.splits if_splits)

lemma executeStep_try_failure:
  assumes "executeStep_try backends t res stepId step s = (Returned (Some e) aw ms, s')"
    and "status_of s stepId \<noteq> None"
  shows "failure_recorded e stepId s' \<and> \<not> is_optional step"
proof -
  let ?s = "set_status stepId (\<lambda>st. st\<lparr>status := Running, startedAt := Some (now s)\<rparr>) s"
  have k: "status_of ?s stepId \<noteq> None"
    using assms(2) by (simp add: status_of_set_status)
  from assms(1) obtain go aw0 where "settle_step stepId step (now s) go aw0 ?s = (Returned (Some e) aw ms, s')"
    unfolding executeStep_try_def Let_def
    by (auto split: if_splits sum.splits option.splits)
  from settle_step_failure [OF this k] show ?thesis .
qed

lemma executeStep_try_others:
  assumes "executeStep_try backends t res stepId step s = (out, s')" and "j \<noteq> stepId"
  shows "status_of s' j = status_of s j"
proof -
  let ?s = "set_status stepId (\<lambda>st. st\<lparr>status := Running, startedAt := Some (now s)\<rparr>) s"
  from assms(1) obtain go aw0 where "settle_step stepId step (now s) go aw0 ?s = (out, s')"
    unfolding executeStep_try_def Let_def
    by (auto split: if_splits sum.splits option.splits)
  from settle_step_others [OF this assms(2)] show ?thesis
    using assms(2) by (simp add: status_of_set_status)
qed

lemma executeStep_failure:
  assumes "executeStep backends t res stepId step s = (Returned (Some e) aw ms, s')"
    and "status_of s stepId \<noteq> None"
  shows "failure_recorded e stepId s' \<and> \<not> is_optional step"
proof -
  let ?s = "s\<lparr>running := List.insert stepId (running s)\<rparr>"
  have k: "status_of ?s stepId \<noteq> None" using assms(2) by simp
  from assms(1) have "executeStep_try backends t res stepId step ?s = (Returned (Some e) aw ms, s')"
    unfolding executeStep_def Let_def resolveTemplate_total
    by (auto split: if_splits)
  from executeStep_try_failure [OF this k] show ?thesis .
qed

lemma executeStep_others:
  assumes "executeStep backends t res stepId step s = (out, s')" and "j \<noteq> stepId"
  shows "status_of s' j = status_of s j"
proof -
  let ?s = "s\<lparr>running := List.insert stepId (running s)\<rparr>"
  from assms(1) consider
      (skip) marker where "s' = skip_step stepId marker ?s"
    | (run) "executeStep_try backends t res stepId step ?s = (out, s')"
    unfolding executeStep_def Let_def resolveTemplate_total
    by (auto split: if_splits)
  then show ?thesis
  proof cases
    case skip
    then show ?thesis using assms(2) by (simp add: skip_step_def status_of_set_status)
  next
    case run
    from executeStep_try_others [OF this assms(2)] show ?thesis by simp
  qed
qed

lemma run_all_others:
  assumes "run_all backends t res rs s = (outs, s')" and "j \<notin> fst ` set rs"
  shows "status_of s' j = status_of s j \<and> (j \<in> set (failed s) \<longrightarrow> j \<in> set (failed s'))"
  using assms
proof (induction rs arbitrary: res s outs)
  case Nil
  then show ?case by simp
next
  case (Cons r rs)
  obtain stepId step where r: "r = (stepId, step)" by (cases r)
  obtain out s1 where e: "executeStep backends t res stepId step s = (out, s1)"
    by (cases "executeStep backends t res stepId step s")
  obtain outs' where rest: "run_all backends t (visible_after out stepId s1 res) rs s1 = (outs', s')"
    using Cons.prems(1) r e by (auto split: prod.splits)
  have j: "j \<noteq> stepId" "j \<notin> fst ` set rs" using Cons.prems(2) r by auto
  have f: "j \<in> set (failed s) \<longrightarrow> j \<in> set (failed s1)"
    using executeStep_effect [OF e] by (auto simp: step_effect_def)
  show ?case
    using Cons.IH [OF rest j(2)] executeStep_others [OF e j(1)] f by simp
qed

lemma run_all_keys:
  "run_all backends t res rs s = (outs, s') \<Longrightarrow>
   map fst (stepStatuses s') = map fst (stepStatuses s)"
proof (induction rs arbitrary: res s outs)
  case Nil
  then show ?case by simp
next
  case (Cons r rs)
  obtain stepId step where r: "r = (stepId, step)" by (cases r)
  obtain out s1 where e: "executeStep backends t res stepId step s = (out, s1)"
    by (cases "executeStep backends t res stepId step s")
  obtain outs' where rest: "run_all backends t (visible_after out stepId s1 res) rs s1 = (outs', s')"
    using Cons.prems(1) r e by (auto split: prod.splits)
  have "map fst (stepStatuses s1) = map fst (stepStatuses s)"
    using executeStep_effect [OF e] by (auto simp: step_effect_def)
  with Cons.IH [OF rest] show ?case by simp
qed

lemma run_all_failure:
  assumes "run_all backends t res rs s = (outs, s')" and "distinct (map fst rs)"
    and "\<forall>i \<in> fst ` set rs. status_of s i \<noteq> None"
    and "first_error outs = Some e"
  shows "\<exists>(i, step) \<in> set rs. \<not> is_optional step \<and> failure_recorded e i s'"
  using assms
proof (induction rs arbitrary: res s outs)
  case Nil
  then show ?case by simp
next
  case (Cons r rs)
  obtain stepId step where r: "r = (stepId, step)" by (cases r)
  obtain out s1 where e: "executeStep backends t res stepId step s = (out, s1)"
    by (cases "executeStep backends t res stepId step s")
  obtain outs' where rest: "run_all backends t (visible_after out stepId s1 res) rs s1 = (outs', s')"
    and outs: "outs = out # outs'"
    using Cons.prems(1) r e by (auto split: prod.splits)
  obtain err aw ms where out: "out = Returned err aw ms"
    using executeStep_effect [OF e] by (auto simp: step_effect_def)
  have notin: "stepId \<notin> fst ` set rs" and d: "distinct (map fst rs)"
    using Cons.prems(2) r by auto
  have known: "status_of s stepId \<noteq> None" using Cons.prems(3) r by simp
  show ?case
  proof (cases err)
    case None
    then have fe: "first_error outs' = Some e" using Cons.prems(4) outs out by simp
    have k1: "\<forall>i \<in> fst ` set rs. status_of s1 i \<noteq> None"
    proof
      fix i assume i: "i \<in> fst ` set rs"
      then have "i \<noteq> stepId" using notin by auto
      moreover have "status_of s i \<noteq> None" using Cons.prems(3) i by auto
      ultimately show "status_of s1 i \<noteq> None" using executeStep_others [OF e] by metis
    qed
    from Cons.IH [OF rest d k1 fe] show ?thesis by auto
  next
    case (Some e')
    then have ee: "e' = e" using Cons.prems(4) outs out by simp
    have e1: "executeStep backends t res stepId step s = (Returned (Some e) aw ms, s1)"
      using e out Some ee by simp
    note f1 = executeStep_failure [OF e1 known]
    note keep = run_all_others [OF rest notin]
    have "failure_recorded e stepId s'"
      using f1 keep by (simp add: failure_recorded_def)
    then show ?thesis using f1 r by auto
  qed
qed

lemma failure_recorded_now [simp]:
  "failure_recorded e i (s\<lparr>now := n\<rparr>) = failure_recorded e i s"
  by (simp add: failure_recorded_def)

text \<open>What the loop throws: the deadlock error when no step has failed, the error of a
  required step that has failed otherwise.\<close>

lemma dag_loop_error:
  assumes run: "dag_loop fuel backends t stepMap s = Some (Some e, s')"
    and inv: "dag_inv stepMap s" and d: "distinct (map fst stepMap)"
    and fs: "failed s = []" and ks: "map fst (stepStatuses s) = map fst stepMap"
  shows "(failed s' = [] \<and> getRunnableSteps stepMap s' = []
            \<and> length (completed s') < length (steps_of t)
            \<and> e = Error (deadlock_message (remaining_tasks (steps_of t) s')))
         \<or> (failed s' \<noteq> []
            \<and> (\<exists>(i, step) \<in> set stepMap. \<not> is_optional step \<and> failure_recorded e i s'))"
proof -
  let ?P = "\<lambda>u err u'. failed u = [] \<longrightarrow> map fst (stepStatuses u) = map fst stepMap \<longrightarrow>
     (\<forall>e. err = Some e \<longrightarrow>
       (failed u' = [] \<and> getRunnableSteps stepMap u' = []
            \<and> length (completed u') < length (steps_of t)
            \<and> e = Error (deadlock_message (remaining_tasks (steps_of t) u')))
         \<or> (failed u' \<noteq> []
            \<and> (\<exists>(i, step) \<in> set stepMap. \<not> is_optional step \<and> failure_recorded e i u')))"
  have "?P s (Some e) s'"
  proof (rule dag_loop_rule [OF run inv d, where P = ?P])
    fix u assume "dag_inv stepMap u"
    show "?P u None u" by simp
  next
    fix u
    assume "dag_inv stepMap u" "length (completed u) + length (failed u) < length (steps_of t)"
      "getRunnableSteps stepMap u = []"
    then show "?P u (Some (Error (deadlock_message (remaining_tasks (steps_of t) u)))) u"
      by simp
  next
    fix u outs u1 e'
    let ?rs = "getRunnableSteps stepMap u"
    let ?u0 = "if 1 < length ?rs then u\<lparr>parallelGroups := parallelGroups u @ [map fst ?rs]\<rparr> else u"
    assume inv: "dag_inv stepMap u" and ne: "?rs \<noteq> []"
      and r: "run_all backends t (results u) ?rs ?u0 = (outs, u1)"
      and fe: "first_error outs = Some e'"
    have s0: "completed ?u0 = completed u" "failed ?u0 = failed u" "running ?u0 = running u"
      "now ?u0 = now u" "progress ?u0 = progress u"
      by simp_all
    note te = tick_effect [OF inv d ne r s0]
    show "?P u (Some e') (u1\<lparr>now := now u + fold max (map outcome_ms outs) 0\<rparr>)"
    proof (intro impI allI)
      fix e''
      assume k: "map fst (stepStatuses u) = map fst stepMap" and ee: "Some e' = Some e''"
      have known: "\<forall>i \<in> fst ` set ?rs. status_of ?u0 i \<noteq> None"
      proof
        fix i assume "i \<in> fst ` set ?rs"
        then have "i \<in> set (map fst stepMap)" using runnable_facts(3) [OF d, of u] by auto
        moreover have "set (map fst (stepStatuses ?u0)) = set (map fst stepMap)"
          using arg_cong [OF k, of set] by simp
        ultimately have "i \<in> set (map fst (stepStatuses ?u0))" by blast
        then show "status_of ?u0 i \<noteq> None" by (simp only: status_of_known)
      qed
      from run_all_failure [OF r runnable_facts(1) [OF d] known fe]
      obtain i step where "(i, step) \<in> set ?rs" "\<not> is_optional step" "failure_recorded e' i u1"
        by auto
      moreover have "set ?rs \<subseteq> set stepMap" by (auto simp: getRunnableSteps_def)
      ultimately have "\<exists>(i, step) \<in> set stepMap. \<not> is_optional step \<and> failure_recorded e' i u1"
        by auto
      moreover have "failed u1 \<noteq> []" using te(8) fe by simp
      ultimately show "(failed (u1\<lparr>now := now u + fold max (map outcome_ms outs) 0\<rparr>) = []
            \<and> getRunnableSteps stepMap (u1\<lparr>now := now u + fold max (map outcome_ms outs) 0\<rparr>) = []
            \<and> length (completed (u1\<lparr>now := now u + fold max (map outcome_ms outs) 0\<rparr>))
                < length (steps_of t)
            \<and> e'' = Error (deadlock_message (remaining_tasks (steps_of t)
                       (u1\<lparr>now := now u + fold max (map outcome_ms outs) 0\<rparr>))))
         \<or> (failed (u1\<lparr>now := now u + fold max (map outcome_ms outs) 0\<rparr>) \<noteq> []
            \<and> (\<exists>(i, step) \<in> set stepMap. \<not> is_optional step
                  \<and> failure_recorded e'' i (u1\<lparr>now := now u + fold max (map outcome_ms outs) 0\<rparr>)))"
        using ee by simp
    qed
  next
    fix u outs and u1 :: dag_state and err u'
    let ?rs = "getRunnableSteps stepMap u"
    let ?u0 = "if 1 < length ?rs then u\<lparr>parallelGroups := parallelGroups u @ [map fst ?rs]\<rparr> else u"
    let ?u3 = "u1\<lparr>now := now u + fold max (map outcome_ms outs) 0,
                 progress := progress u1 @ [round_percent (length (completed u1)) (length (steps_of t))]\<rparr>"
    assume inv: "dag_inv stepMap u" and ne: "?rs \<noteq> []"
      and r: "run_all backends t (results u) ?rs ?u0 = (outs, u1)"
      and fe: "first_error outs = None"
      and ih: "?P ?u3 err u'"
    have s0: "completed ?u0 = completed u" "failed ?u0 = failed u" "running ?u0 = running u"
      "now ?u0 = now u" "progress ?u0 = progress u"
      by simp_all
    note te = tick_effect [OF inv d ne r s0]
    show "?P u err u'"
    proof (intro impI)
      assume f: "failed u = []" and k: "map fst (stepStatuses u) = map fst stepMap"
      have f3: "failed ?u3 = []" using te(7) fe f by simp
      have "map fst (stepStatuses u1) = map fst (stepStatuses ?u0)" using r by (rule run_all_keys)
      then have k3: "map fst (stepStatuses ?u3) = map fst stepMap" using k by simp
      from ih f3 k3 show "\<forall>e. err = Some e \<longrightarrow>
       (failed u' = [] \<and> getRunnableSteps stepMap u' = []
            \<and> length (completed u') < length (steps_of t)
            \<and> e = Error (deadlock_message (remaining_tasks (steps_of t) u')))
         \<or> (failed u' \<noteq> []
            \<and> (\<exists>(i, step) \<in> set stepMap. \<not> is_optional step \<and> failure_recorded e i u'))"
        by blast
    qed
  qed
  then show ?thesis using fs ks by blast
qed

subsection \<open>Blocked steps never run\<close>

lemma tick_terminal:
  assumes inv: "dag_inv stepMap s" and d: "distinct (map fst stepMap)"
    and r: "run_all backends t res (getRunnableSteps stepMap s) s0 = (outs, s1)"
    and s0: "completed s0 = completed s" "failed s0 = failed s"
  shows "terminal s1 = terminal s \<union> set (map fst (getRunnableSteps stepMap s))"
proof -
  let ?rs = "getRunnableSteps stepMap s"
  have t0: "terminal s0 = terminal s" using s0 by (simp add: terminal_def)
  have pre: "distinct (map fst ?rs)" "set (map fst ?rs) \<inter> terminal s0 = {}"
    "distinct (completed s0)" "distinct (failed s0)" "set (completed s0) \<inter> set (failed s0) = {}"
    using runnable_facts [OF d, of s] inv s0 t0 by (simp_all add: dag_inv_def)
  from run_all_effect [OF r pre] t0 show ?thesis by simp
qed

lemma runnable_blocked:
  assumes b: "blocked stepMap B" and dj: "terminal s \<inter> B = {}"
    and sub: "terminal s \<subseteq> set (map fst stepMap)"
  shows "set (map fst (getRunnableSteps stepMap s)) \<inter> B = {}"
proof (rule ccontr)
  assume "set (map fst (getRunnableSteps stepMap s)) \<inter> B \<noteq> {}"
  then obtain i step where m: "(i, step) \<in> set stepMap" and c: "canRun s step i" and i: "i \<in> B"
    by (auto simp: getRunnableSteps_def)
  from b m i obtain dep where dep: "dep \<in> set (deps_of step)"
    and w: "dep \<in> B \<or> dep \<notin> fst ` set stepMap"
    by (auto simp: blocked_def)
  from c dep have "dep \<in> set (completed s)"
    by (auto simp: canRun_def list_all_iff split: if_splits)
  then have "dep \<in> terminal s" by (simp add: terminal_def)
  with dj sub w show False by auto
qed

lemma dag_loop_blocked:
  assumes run: "dag_loop fuel backends t stepMap s = Some (err, s')"
    and inv: "dag_inv stepMap s" and d: "distinct (map fst stepMap)"
    and b: "blocked stepMap B" and dj: "terminal s \<inter> B = {}"
  shows "terminal s' \<inter> B = {}"
proof -
  let ?P = "\<lambda>u (err :: thrown option) u'. terminal u \<inter> B = {} \<longrightarrow> terminal u' \<inter> B = {}"
  have step: "terminal u1 \<inter> B = {}"
    if inv: "dag_inv stepMap u"
      and r: "run_all backends t (results u) (getRunnableSteps stepMap u)
          (if 1 < length (getRunnableSteps stepMap u)
           then u\<lparr>parallelGroups := parallelGroups u @ [map fst (getRunnableSteps stepMap u)]\<rparr>
           else u) = (outs, u1)"
      and dj: "terminal u \<inter> B = {}"
    for u outs u1
  proof -
    have "terminal u1 = terminal u \<union> set (map fst (getRunnableSteps stepMap u))"
      using tick_terminal [OF inv d r] by simp
    moreover have "set (map fst (getRunnableSteps stepMap u)) \<inter> B = {}"
      using runnable_blocked [OF b dj] inv by (simp add: dag_inv_def)
    ultimately show ?thesis using dj by auto
  qed
  have "?P s err s'"
  proof (rule dag_loop_rule [OF run inv d, where P = ?P])
    fix u show "?P u None u" by simp
  next
    fix u show "?P u (Some (Error (deadlock_message (remaining_tasks (steps_of t) u)))) u" by simp
  next
    fix u outs and u1 :: dag_state and e
    assume "dag_inv stepMap u"
      and "run_all backends t (results u) (getRunnableSteps stepMap u)
          (if 1 < length (getRunnableSteps stepMap u)
           then u\<lparr>parallelGroups := parallelGroups u @ [map fst (getRunnableSteps stepMap u)]\<rparr>
           else u) = (outs, u1)"
    from step [OF this]
    show "?P u (Some e) (u1\<lparr>now := now u + fold max (map outcome_ms outs) 0\<rparr>)"
      by (simp add: terminal_def)
  next
    fix u outs and u1 :: dag_state and err u'
    assume "dag_inv stepMap u"
      and "run_all backends t (results u) (getRunnableSteps stepMap u)
          (if 1 < length (getRunnableSteps stepMap u)
           then u\<lparr>parallelGroups := parallelGroups u @ [map fst (getRunnableSteps stepMap u)]\<rparr>
           else u) = (outs, u1)"
      and ih: "?P (u1\<lparr>now := now u + fold max (map outcome_ms outs) 0,
              progress := progress u1 @ [round_percent (length (completed u1)) (length (steps_of t))]\<rparr>)
          err u'"
    from step [OF this(1,2)] ih
    show "?P u err u'" by (simp add: terminal_def)
  qed
  then show ?thesis using dj by simp
qed

subsection \<open>The schedule\<close>

lemma runnable_ready:
  assumes "running s = []" "failed s = []" "set res = set (completed s)"
  shows "getRunnableSteps stepMap s = ready stepMap res"
  unfolding getRunnableSteps_def ready_def
  using assms by (intro filter_cong) (auto simp: canRun_def list_all_iff)

lemma completed_after_stop:
  "\<not> length res < n \<or> ready stepMap res = [] \<Longrightarrow> completed_after stepMap n res = []"
  by (subst completed_after.simps) auto

lemma completed_after_step:
  "length res < n \<Longrightarrow> ready stepMap res \<noteq> [] \<Longrightarrow>
   completed_after stepMap n res =
     (res @ map fst (ready stepMap res)) # completed_after stepMap n (res @ map fst (ready stepMap res))"
  by (subst completed_after.simps) simp

text \<open>The reports of the loop follow the schedule: after each tick that does not throw,
  the percentage of the ids completed so far.  A run that stops or detects a deadlock has
  gone through the whole schedule and has completed what the schedule completes.\<close>

lemma dag_loop_schedule:
  assumes run: "dag_loop fuel backends t stepMap s = Some (err, s')"
    and inv: "dag_inv stepMap s" and d: "distinct (map fst stepMap)"
    and fs: "failed s = []"
    and res: "set res = set (completed s)" "length res = length (completed s)"
  shows "\<exists>m. progress s' =
            progress s @ map (\<lambda>c. round_percent (length c) (length (steps_of t)))
                           (take m (completed_after stepMap (length (steps_of t)) res))
          \<and> (failed s' = [] \<longrightarrow>
               m = length (completed_after stepMap (length (steps_of t)) res)
               \<and> set (completed s') = set (last (res # completed_after stepMap (length (steps_of t)) res)))"
proof -
  let ?n = "length (steps_of t)"
  let ?pct = "\<lambda>c. round_percent (length c) ?n"
  let ?P = "\<lambda>u (err :: thrown option) u'. failed u = [] \<longrightarrow>
     (\<forall>res. set res = set (completed u) \<and> length res = length (completed u) \<longrightarrow>
        (\<exists>m. progress u' = progress u @ map ?pct (take m (completed_after stepMap ?n res))
          \<and> (failed u' = [] \<longrightarrow>
               m = length (completed_after stepMap ?n res)
               \<and> set (completed u') = set (last (res # completed_after stepMap ?n res)))))"
  have "?P s err s'"
  proof (rule dag_loop_rule [OF run inv d, where P = ?P])
    fix u
    assume "dag_inv stepMap u" and g: "\<not> length (completed u) + length (failed u) < ?n"
    show "?P u None u"
    proof (intro impI allI)
      fix res
      assume f: "failed u = []" and r: "set res = set (completed u) \<and> length res = length (completed u)"
      have "completed_after stepMap ?n res = []"
        using g f r by (intro completed_after_stop) simp
      then show "\<exists>m. progress u = progress u @ map ?pct (take m (completed_after stepMap ?n res))
          \<and> (failed u = [] \<longrightarrow>
               m = length (completed_after stepMap ?n res)
               \<and> set (completed u) = set (last (res # completed_after stepMap ?n res)))"
        using r by (intro exI [of _ 0]) simp
    qed
  next
    fix u
    assume inv: "dag_inv stepMap u" and nr: "getRunnableSteps stepMap u = []"
    show "?P u (Some (Error (deadlock_message (remaining_tasks (steps_of t) u)))) u"
    proof (intro impI allI)
      fix res
      assume f: "failed u = []" and r: "set res = set (completed u) \<and> length res = length (completed u)"
      have "ready stepMap res = []"
        using runnable_ready [of u res stepMap] inv f r nr by (simp add: dag_inv_def)
      then have "completed_after stepMap ?n res = []"
        by (intro completed_after_stop) simp
      then show "\<exists>m. progress u = progress u @ map ?pct (take m (completed_after stepMap ?n res))
          \<and> (failed u = [] \<longrightarrow>
               m = length (completed_after stepMap ?n res)
               \<and> set (completed u) = set (last (res # completed_after stepMap ?n res)))"
        using r by (intro exI [of _ 0]) simp
    qed
  next
    fix u outs and u1 :: dag_state and e
    let ?rs = "getRunnableSteps stepMap u"
    let ?u0 = "if 1 < length ?rs then u\<lparr>parallelGroups := parallelGroups u @ [map fst ?rs]\<rparr> else u"
    let ?u2 = "u1\<lparr>now := now u + fold max (map outcome_ms outs) 0\<rparr>"
    assume inv: "dag_inv stepMap u" and ne: "?rs \<noteq> []"
      and r: "run_all backends t (results u) ?rs ?u0 = (outs, u1)"
      and fe: "first_error outs = Some e"
    have s0: "completed ?u0 = completed u" "failed ?u0 = failed u" "running ?u0 = running u"
      "now ?u0 = now u" "progress ?u0 = progress u"
      by simp_all
    note te = tick_effect [OF inv d ne r s0]
    have "failed ?u2 \<noteq> []" using te(8) fe by simp
    moreover have "progress ?u2 = progress u" using te(5) by simp
    ultimately show "?P u (Some e) ?u2"
      by (intro impI allI exI [of _ 0]) simp
  next
    fix u outs and u1 :: dag_state and err u'
    let ?rs = "getRunnableSteps stepMap u"
    let ?u0 = "if 1 < length ?rs then u\<lparr>parallelGroups := parallelGroups u @ [map fst ?rs]\<rparr> else u"
    let ?u3 = "u1\<lparr>now := now u + fold max (map outcome_ms outs) 0,
                 progress := progress u1 @ [round_percent (length (completed u1)) ?n]\<rparr>"
    assume inv: "dag_inv stepMap u" and g: "length (completed u) + length (failed u) < ?n"
      and ne: "?rs \<noteq> []"
      and r: "run_all backends t (results u) ?rs ?u0 = (outs, u1)"
      and fe: "first_error outs = None"
      and ih: "?P ?u3 err u'"
    have s0: "completed ?u0 = completed u" "failed ?u0 = failed u" "running ?u0 = running u"
      "now ?u0 = now u" "progress ?u0 = progress u"
      by simp_all
    note te = tick_effect [OF inv d ne r s0]
    have tt: "terminal u1 = terminal u \<union> set (map fst ?rs)"
      using tick_terminal [OF inv d r] by simp
    show "?P u err u'"
    proof (intro impI allI)
      fix res
      assume f: "failed u = []" and rr: "set res = set (completed u) \<and> length res = length (completed u)"
      let ?res' = "res @ map fst (ready stepMap res)"
      have rdy: "?rs = ready stepMap res"
        using runnable_ready [of u res stepMap] inv f rr by (simp add: dag_inv_def)
      have f1: "failed u1 = []" using te(7) fe f by simp
      have c1: "set (completed u1) = set (completed u) \<union> set (map fst ?rs)"
        using tt f f1 by (simp add: terminal_def)
      have set': "set ?res' = set (completed u1)" using c1 rr rdy by simp
      have dj: "set (map fst ?rs) \<inter> set (completed u) = {}"
        using runnable_facts(2) [OF d, of u] by (auto simp: terminal_def)
      have "length (completed u1) = card (set (completed u1))"
        using te(1) by (simp add: dag_inv_def distinct_card)
      also have "\<dots> = card (set (completed u)) + card (set (map fst ?rs))"
        unfolding c1 using dj by (intro card_Un_disjoint) auto
      also have "\<dots> = length (completed u) + length (map fst ?rs)"
        using inv distinct_card [OF runnable_facts(1) [OF d, of u]]
        by (simp add: dag_inv_def distinct_card)
      finally have len': "length ?res' = length (completed u1)" using rr rdy by simp
      have ca: "completed_after stepMap ?n res = ?res' # completed_after stepMap ?n ?res'"
        using g f rr ne rdy by (intro completed_after_step) simp_all
      have f3: "failed ?u3 = []" using f1 by simp
      have pre: "set ?res' = set (completed ?u3) \<and> length ?res' = length (completed ?u3)"
        using set' len' by simp
      from ih [THEN mp, OF f3, THEN spec, of ?res', THEN mp, OF pre]
      obtain m where m: "progress u' = progress ?u3 @ map ?pct (take m (completed_after stepMap ?n ?res'))"
        "failed u' = [] \<longrightarrow> m = length (completed_after stepMap ?n ?res')
               \<and> set (completed u') = set (last (?res' # completed_after stepMap ?n ?res'))"
        by blast
      have p3: "progress ?u3 = progress u @ [?pct ?res']"
        using te(5) len' by simp
      have "progress u' = progress u @ map ?pct (take (Suc m) (completed_after stepMap ?n res))"
        using m(1) p3 ca by simp
      moreover have "failed u' = [] \<longrightarrow> Suc m = length (completed_after stepMap ?n res)
               \<and> set (completed u') = set (last (res # completed_after stepMap ?n res))"
        using m(2) ca by simp
      ultimately show "\<exists>m. progress u' = progress u @ map ?pct (take m (completed_after stepMap ?n res))
          \<and> (failed u' = [] \<longrightarrow>
               m = length (completed_after stepMap ?n res)
               \<and> set (completed u') = set (last (res # completed_after stepMap ?n res)))"
        by blast
    qed
  qed
  then show ?thesis using fs res by blast
qed

subsection \<open>The step map and the deadlock message against the declared steps\<close>

lemma zip_ids_filter:
  "map snd (filter (\<lambda>(i, step). P i) (zip (map g es) (map snd es)))
     = map snd (filter (\<lambda>e. P (g e)) es)"
  by (induction es) auto

lemma remaining_tasks_unresolved:
  "remaining_tasks ss s = map task (unresolved ss (terminal s))"
proof -
  have "unresolved ss (terminal s)
      = map snd (filter (\<lambda>e. (case e of (i, step) \<Rightarrow> stepIdOf i step) \<notin> terminal s) (enumerate 0 ss))"
    unfolding unresolved_def declared_ids_def
    using zip_ids_filter [of "\<lambda>i. i \<notin> terminal s" "\<lambda>(i, step). stepIdOf i step" "enumerate 0 ss"]
    by simp
  then show ?thesis
    by (simp add: remaining_tasks_def terminal_def case_prod_unfold comp_def)
qed

lemma deadlock_message_text: "deadlock_message xs = deadlock_text xs"
  by (simp add: deadlock_message_def deadlock_text_def)

lemma declared_ids_snoc:
  "declared_ids (ss @ [x]) = declared_ids ss @ [stepIdOf (length ss) x]"
  by (simp add: declared_ids_def enumerate_append_eq)

lemma build_stepMap_snoc:
  "build_stepMap (ss @ [x]) = AList.update (stepIdOf (length ss) x) x (build_stepMap ss)"
  by (simp add: build_stepMap_def enumerate_append_eq)

text \<open>The step map holds, for each declared id, the last step declared with it.\<close>

lemma build_stepMap_last:
  "i \<in> set (declared_ids ss) \<Longrightarrow> map_of (build_stepMap ss) i = Some (last (declared_as ss i))"
proof (induction ss rule: rev_induct)
  case Nil
  then show ?case by (simp add: declared_ids_def)
next
  case (snoc x ss)
  have z: "zip (declared_ids (ss @ [x])) (ss @ [x])
      = zip (declared_ids ss) ss @ [(stepIdOf (length ss) x, x)]"
    by (simp add: declared_ids_snoc)
  show ?case
  proof (cases "i = stepIdOf (length ss) x")
    case True
    then show ?thesis
      by (simp add: build_stepMap_snoc update_conv' declared_as_def z)
  next
    case False
    then have "i \<in> set (declared_ids ss)" using snoc.prems by (simp add: declared_ids_snoc)
    from snoc.IH [OF this] False show ?thesis
      by (simp add: build_stepMap_snoc update_conv' declared_as_def z)
  qed
qed

lemma unresolved_none: "unresolved ss {} = ss"
  by (simp add: unresolved_def map_snd_zip)

subsection \<open>Runs from the initial state\<close>

lemma init_state_facts:
  "failed (init_state stepMap) = []" "completed (init_state stepMap) = []"
  "running (init_state stepMap) = []" "progress (init_state stepMap) = []"
  "map fst (stepStatuses (init_state stepMap)) = map fst stepMap"
  "terminal (init_state stepMap) = {}"
  by (simp_all add: init_state_def terminal_def comp_def case_prod_unfold)

lemma dag_run_returns:
  assumes "length (steps_of t) < fuel"
  shows "\<exists>err s. dag_loop fuel backends t (build_stepMap (steps_of t))
                   (init_state (build_stepMap (steps_of t))) = Some (err, s)"
proof -
  let ?sm = "build_stepMap (steps_of t)"
  have d: "distinct (map fst ?sm)" using build_stepMap_keys [of "steps_of t"] by simp
  have "card (set (map fst ?sm)) = length ?sm"
    using d distinct_card [of "map fst ?sm"] by simp
  then have "card (set (map fst ?sm) - terminal (init_state ?sm)) < fuel"
    using length_build_stepMap [of "steps_of t"] assms by (simp add: init_state_facts)
  from dag_loop_returns [OF init_state_inv d this] show ?thesis by (metis surj_pair)
qed

lemma processTask_dag:
  assumes "hasDependencies (steps_of t)"
  shows "processTask fuel backends t = map_option as_pipeline (processPipelineDAG fuel backends t)"
proof -
  have "steps_of t \<noteq> []" using assms by (auto simp: hasDependencies_def)
  then show ?thesis using assms by (simp add: processTask_def)
qed

lemma processTask_rejects:
  assumes "hasDependencies (steps_of t)"
    and "dag_loop fuel backends t (build_stepMap (steps_of t))
           (init_state (build_stepMap (steps_of t))) = Some (Some e, s)"
  shows "processTask fuel backends t = Some \<lparr>outcome = Inl e, progress_calls = progress s\<rparr>"
  using assms(2) by (simp add: processTask_dag [OF assms(1)] processPipelineDAG_def as_pipeline_def)

lemma dag_loop_keys:
  assumes run: "dag_loop fuel backends t stepMap s = Some (err, s')"
    and inv: "dag_inv stepMap s" and d: "distinct (map fst stepMap)"
  shows "map fst (stepStatuses s') = map fst (stepStatuses s)"
proof -
  let ?P = "\<lambda>u (err :: thrown option) u'. map fst (stepStatuses u') = map fst (stepStatuses u)"
  show "?P s err s'"
  proof (rule dag_loop_rule [OF run inv d, where P = ?P])
    fix u show "?P u None u" by simp
  next
    fix u show "?P u (Some (Error (deadlock_message (remaining_tasks (steps_of t) u)))) u" by simp
  next
    fix u outs and u1 :: dag_state and e
    assume "run_all backends t (results u) (getRunnableSteps stepMap u)
          (if 1 < length (getRunnableSteps stepMap u)
           then u\<lparr>parallelGroups := parallelGroups u @ [map fst (getRunnableSteps stepMap u)]\<rparr>
           else u) = (outs, u1)"
    from run_all_keys [OF this]
    show "?P u (Some e) (u1\<lparr>now := now u + fold max (map outcome_ms outs) 0\<rparr>)"
      by (simp split: if_splits)
  next
    fix u outs and u1 :: dag_state and err u'
    assume "run_all backends t (results u) (getRunnableSteps stepMap u)
          (if 1 < length (getRunnableSteps stepMap u)
           then u\<lparr>parallelGroups := parallelGroups u @ [map fst (getRunnableSteps stepMap u)]\<rparr>
           else u) = (outs, u1)"
      and ih: "?P (u1\<lparr>now := now u + fold max (map outcome_ms outs) 0,
              progress := progress u1 @ [round_percent (length (completed u1)) (length (steps_of t))]\<rparr>)
          err u'"
    from run_all_keys [OF this(1)] ih
    show "?P u err u'" by (simp split: if_splits)
  qed
qed

section \<open>Deadlock detection\<close>

lemma terminal_count:
  assumes "dag_inv stepMap s"
  shows "length (completed s) + length (failed s) = card (terminal s)"
proof -
  have "length (completed s) + length (failed s) = card (set (completed s)) + card (set (failed s))"
    using assms by (simp add: dag_inv_def distinct_card)
  also have "\<dots> = card (terminal s)"
    using assms by (simp add: dag_inv_def terminal_def card_Un_disjoint)
  finally show ?thesis .
qed

text \<open>
  Claim C3.  Whenever the loop condition holds (fewer terminal ids than declared steps) and
  a scheduling tick finds no runnable step and no running step, the run rejects with the
  pipeline-deadlock error, whose bracketed list holds the task types of the unresolved
  steps: the declared steps, in declaration order, whose id is neither completed nor
  failed.

  A pipeline in which no step is ready at the start (such as \<open>a\<close> depends on \<open>b\<close>, \<open>b\<close> depends
  on \<open>a\<close>) is rejected by \<open>processTask\<close> with this error, listing every task type, whatever
  the backends and the fuel: it does not loop.

  More generally, let \<open>B\<close> be a non-empty set of step ids each of which waits for a member of
  \<open>B\<close> or for an id that no step has (a cycle, or the steps behind a missing dependency).
  Then with fuel for more iterations than there are steps \<open>processTask\<close> rejects, and no
  step of \<open>B\<close> has run.  If no step has failed, the error is the deadlock error, and the steps
  it lists are exactly those that the schedule of the pipeline never completes; otherwise
  a required step has failed and the error is the one recorded for it.
\<close>

theorem deadlock_detected:
  "(running s = [] \<and> getRunnableSteps stepMap s = []
      \<and> length (completed s) + length (failed s) < length (steps_of t) \<longrightarrow>
    dag_loop (Suc fuel) backends t stepMap s =
      Some (Some (Error (deadlock_text (map task (unresolved (steps_of t) (terminal s))))), s))
   \<and> (hasDependencies (steps_of t) \<and> ready (build_stepMap (steps_of t)) [] = [] \<longrightarrow>
    processTask (Suc fuel) backends t =
      Some \<lparr>outcome = Inl (Error (deadlock_text (map task (steps_of t)))), progress_calls = []\<rparr>)
   \<and> (hasDependencies (steps_of t) \<and> length (steps_of t) < fuel
      \<and> blocked (build_stepMap (steps_of t)) B \<and> B \<noteq> {} \<and> B \<subseteq> set (declared_ids (steps_of t)) \<longrightarrow>
    (\<exists>e s'. dag_loop fuel backends t (build_stepMap (steps_of t))
                (init_state (build_stepMap (steps_of t))) = Some (Some e, s')
          \<and> processTask fuel backends t = Some \<lparr>outcome = Inl e, progress_calls = progress s'\<rparr>
          \<and> B \<inter> terminal s' = {}
          \<and> (failed s' = [] \<longrightarrow>
               set (completed s') = set (scheduled (build_stepMap (steps_of t)) (length (steps_of t)))
               \<and> e = Error (deadlock_text (map task (unresolved (steps_of t)
                        (set (scheduled (build_stepMap (steps_of t)) (length (steps_of t))))))))
          \<and> (failed s' \<noteq> [] \<longrightarrow>
               (\<exists>(i, step) \<in> set (build_stepMap (steps_of t)).
                   \<not> is_optional step \<and> failure_recorded e i s'))))"
proof -
  let ?ss = "steps_of t"
  let ?sm = "build_stepMap ?ss"
  let ?n = "length ?ss"
  have d: "distinct (map fst ?sm)" and keys: "set (map fst ?sm) = set (declared_ids ?ss)"
    using build_stepMap_keys [of ?ss] by simp_all
  have inv0: "dag_inv ?sm (init_state ?sm)" by (rule init_state_inv)
  have tick: "running s = [] \<and> getRunnableSteps stepMap s = []
      \<and> length (completed s) + length (failed s) < ?n \<longrightarrow>
    dag_loop (Suc fuel) backends t stepMap s =
      Some (Some (Error (deadlock_text (map task (unresolved ?ss (terminal s))))), s)"
    by (simp add: deadlock_message_text remaining_tasks_unresolved)
  have pure: "hasDependencies ?ss \<and> ready ?sm [] = [] \<longrightarrow>
    processTask (Suc fuel) backends t =
      Some \<lparr>outcome = Inl (Error (deadlock_text (map task ?ss))), progress_calls = []\<rparr>"
  proof
    assume h: "hasDependencies ?ss \<and> ready ?sm [] = []"
    then have ne: "?ss \<noteq> []" by (auto simp: hasDependencies_def)
    have nr: "getRunnableSteps ?sm (init_state ?sm) = []"
      using runnable_ready [of "init_state ?sm" "[]" ?sm] h by (simp add: init_state_facts)
    have "dag_loop (Suc fuel) backends t ?sm (init_state ?sm) =
        Some (Some (Error (deadlock_text (map task (unresolved ?ss (terminal (init_state ?sm)))))),
              init_state ?sm)"
      using nr ne
      by (simp add: deadlock_message_text remaining_tasks_unresolved init_state_facts)
    then have "dag_loop (Suc fuel) backends t ?sm (init_state ?sm) =
        Some (Some (Error (deadlock_text (map task ?ss))), init_state ?sm)"
      by (simp add: init_state_facts unresolved_none)
    from processTask_rejects [OF _ this] h
    show "processTask (Suc fuel) backends t =
      Some \<lparr>outcome = Inl (Error (deadlock_text (map task ?ss))), progress_calls = []\<rparr>"
      by (simp add: init_state_facts)
  qed
  have general: "hasDependencies ?ss \<and> ?n < fuel \<and> blocked ?sm B \<and> B \<noteq> {}
        \<and> B \<subseteq> set (declared_ids ?ss) \<longrightarrow>
    (\<exists>e s'. dag_loop fuel backends t ?sm (init_state ?sm) = Some (Some e, s')
          \<and> processTask fuel backends t = Some \<lparr>outcome = Inl e, progress_calls = progress s'\<rparr>
          \<and> B \<inter> terminal s' = {}
          \<and> (failed s' = [] \<longrightarrow>
               set (completed s') = set (scheduled ?sm ?n)
               \<and> e = Error (deadlock_text (map task (unresolved ?ss (set (scheduled ?sm ?n))))))
          \<and> (failed s' \<noteq> [] \<longrightarrow>
               (\<exists>(i, step) \<in> set ?sm. \<not> is_optional step \<and> failure_recorded e i s')))"
  proof
    assume h: "hasDependencies ?ss \<and> ?n < fuel \<and> blocked ?sm B \<and> B \<noteq> {}
        \<and> B \<subseteq> set (declared_ids ?ss)"
    from dag_run_returns [of t fuel backends] h
    obtain err s' where run: "dag_loop fuel backends t ?sm (init_state ?sm) = Some (err, s')"
      by blast
    have dj: "terminal s' \<inter> B = {}"
      using dag_loop_blocked [OF run inv0 d] h by (simp add: init_state_facts)
    note post = dag_loop_post [OF run inv0 d]
    have inv: "dag_inv ?sm s'" using post by blast
    have "terminal s' \<subset> set (map fst ?sm)"
      using inv dj h keys by (auto simp: dag_inv_def)
    then have "card (terminal s') < card (set (map fst ?sm))"
      by (intro psubset_card_mono) simp_all
    also have "\<dots> = length ?sm" using d distinct_card [of "map fst ?sm"] by simp
    also have "\<dots> \<le> ?n" by (rule length_build_stepMap)
    finally have lt: "length (completed s') + length (failed s') < ?n"
      using terminal_count [OF inv] by simp
    have "err \<noteq> None" using post lt by auto
    then obtain e where e: "err = Some e" by auto
    have run': "dag_loop fuel backends t ?sm (init_state ?sm) = Some (Some e, s')"
      using run e by simp
    note err = dag_loop_error [OF run' inv0 d init_state_facts(1) init_state_facts(5)]
    from dag_loop_schedule [OF run inv0 d init_state_facts(1), of "[]"]
    have sch: "failed s' = [] \<longrightarrow> set (completed s') = set (scheduled ?sm ?n)"
      by (auto simp: init_state_facts scheduled_def)
    have dl: "failed s' = [] \<longrightarrow>
        e = Error (deadlock_text (map task (unresolved ?ss (set (scheduled ?sm ?n)))))"
    proof
      assume f: "failed s' = []"
      then have "e = Error (deadlock_message (remaining_tasks ?ss s'))" using err by auto
      moreover have "terminal s' = set (scheduled ?sm ?n)"
        using f sch by (simp add: terminal_def)
      ultimately show "e = Error (deadlock_text (map task (unresolved ?ss (set (scheduled ?sm ?n)))))"
        by (simp add: deadlock_message_text remaining_tasks_unresolved)
    qed
    have fl: "failed s' \<noteq> [] \<longrightarrow>
        (\<exists>(i, step) \<in> set ?sm. \<not> is_optional step \<and> failure_recorded e i s')"
      using err by auto
    have pt: "processTask fuel backends t = Some \<lparr>outcome = Inl e, progress_calls = progress s'\<rparr>"
      using processTask_rejects [OF _ run'] h by simp
    have dj': "B \<inter> terminal s' = {}" using dj by auto
    show "\<exists>e s'. dag_loop fuel backends t ?sm (init_state ?sm) = Some (Some e, s')
          \<and> processTask fuel backends t = Some \<lparr>outcome = Inl e, progress_calls = progress s'\<rparr>
          \<and> B \<inter> terminal s' = {}
          \<and> (failed s' = [] \<longrightarrow>
               set (completed s') = set (scheduled ?sm ?n)
               \<and> e = Error (deadlock_text (map task (unresolved ?ss (set (scheduled ?sm ?n))))))
          \<and> (failed s' \<noteq> [] \<longrightarrow>
               (\<exists>(i, step) \<in> set ?sm. \<not> is_optional step \<and> failure_recorded e i s'))"
      using run' pt dj' sch dl fl by blast
  qed
  show ?thesis using tick pure general by blast
qed

theorem deadlock_detected_witness:
  "processTask 1 ex_registry ex_cycle =
     Some \<lparr>outcome = Inl (Error (''Pipeline deadlock: cannot run remaining steps [instant.task, other.task]. ''
                                 @ ''Check for circular dependencies or missing dependency IDs.'')),
           progress_calls = []\<rparr>
   \<and> dag_loop 1 ex_registry ex_stuck (build_stepMap (steps_of ex_stuck))
       ((init_state (build_stepMap (steps_of ex_stuck)))\<lparr>completed := [''a'']\<rparr>) =
     Some (Some (Error (''Pipeline deadlock: cannot run remaining steps [other.task, third.task]. ''
                         @ ''Check for circular dependencies or missing dependency IDs.'')),
           (init_state (build_stepMap (steps_of ex_stuck)))\<lparr>completed := [''a'']\<rparr>)
   \<and> processTask 4 ex_registry ex_stuck =
     Some \<lparr>outcome = Inl (Error (''Pipeline deadlock: cannot run remaining steps [other.task, third.task]. ''
                                 @ ''Check for circular dependencies or missing dependency IDs.'')),
           progress_calls = [33]\<rparr>
   \<and> scheduled (build_stepMap (steps_of ex_stuck)) (length (steps_of ex_stuck)) = [''a'']
   \<and> (\<exists>e s'. dag_loop 4 ex_registry ex_stuck (build_stepMap (steps_of ex_stuck))
                 (init_state (build_stepMap (steps_of ex_stuck))) = Some (Some e, s')
            \<and> {''b'', ''c''} \<inter> terminal s' = {})
   \<and> processTask 3 ex_registry ex_missing =
     Some \<lparr>outcome = Inl (Error (''Pipeline deadlock: cannot run remaining steps [other.task]. ''
                                 @ ''Check for circular dependencies or missing dependency IDs.'')),
           progress_calls = [50]\<rparr>"
proof -
  let ?sm = "build_stepMap (steps_of ex_stuck)"
  have sm: "?sm = [(''a'', mk_step ''a'' ''instant.task''),
                   (''b'', (mk_step ''b'' ''other.task'')\<lparr>dependsOn := Some [''c'']\<rparr>),
                   (''c'', (mk_step ''c'' ''third.task'')\<lparr>dependsOn := Some [''b'']\<rparr>)]"
    by (simp add: ex_stuck_def run_defs)
  have f4: "(4::nat) = Suc (Suc (Suc (Suc 0)))" by simp
  have h1: "hasDependencies (steps_of ex_cycle) \<and> ready (build_stepMap (steps_of ex_cycle)) [] = []"
    by (simp add: ex_cycle_def run_defs ready_def mk_step_def)
  from deadlock_detected [where t = ex_cycle and fuel = 0 and backends = ex_registry,
      THEN conjunct2, THEN conjunct1, THEN mp, OF h1]
  have c1: "processTask 1 ex_registry ex_cycle =
     Some \<lparr>outcome = Inl (Error (''Pipeline deadlock: cannot run remaining steps [instant.task, other.task]. ''
                                 @ ''Check for circular dependencies or missing dependency IDs.'')),
           progress_calls = []\<rparr>"
    by (simp add: ex_cycle_def steps_of_def mk_pipeline_def mk_step_def deadlock_text_def)
  have h2: "running ((init_state ?sm)\<lparr>completed := [''a'']\<rparr>) = []
      \<and> getRunnableSteps ?sm ((init_state ?sm)\<lparr>completed := [''a'']\<rparr>) = []
      \<and> length (completed ((init_state ?sm)\<lparr>completed := [''a'']\<rparr>))
          + length (failed ((init_state ?sm)\<lparr>completed := [''a'']\<rparr>)) < length (steps_of ex_stuck)"
    by (simp add: sm init_state_def getRunnableSteps_def canRun_def deps_of_def mk_step_def)
       (simp add: ex_stuck_def steps_of_def mk_pipeline_def)
  have u2: "map task (unresolved (steps_of ex_stuck) (terminal ((init_state ?sm)\<lparr>completed := [''a'']\<rparr>)))
      = [''other.task'', ''third.task'']"
    by (simp add: unresolved_def terminal_def init_state_def declared_ids_def ex_stuck_def
        steps_of_def mk_pipeline_def mk_step_def enumerate_eq_zip upt_conv_Cons stepIdOf_def
        is_set_def)
  from deadlock_detected [where t = ex_stuck and fuel = 0 and backends = ex_registry
        and stepMap = ?sm and s = "(init_state ?sm)\<lparr>completed := [''a'']\<rparr>",
      THEN conjunct1, THEN mp, OF h2]
  have c2: "dag_loop 1 ex_registry ex_stuck ?sm ((init_state ?sm)\<lparr>completed := [''a'']\<rparr>) =
     Some (Some (Error (''Pipeline deadlock: cannot run remaining steps [other.task, third.task]. ''
                         @ ''Check for circular dependencies or missing dependency IDs.'')),
           (init_state ?sm)\<lparr>completed := [''a'']\<rparr>)"
    unfolding u2 by (simp add: deadlock_text_def)
  have c3: "processTask 4 ex_registry ex_stuck =
     Some \<lparr>outcome = Inl (Error (''Pipeline deadlock: cannot run remaining steps [other.task, third.task]. ''
                                 @ ''Check for circular dependencies or missing dependency IDs.'')),
           progress_calls = [33]\<rparr>"
    by (simp add: ex_stuck_def run_defs ex_registry_modal Let_def ex_modal_def echo_def f4)
  have n: "length (steps_of ex_stuck) = 3"
    by (simp add: ex_stuck_def steps_of_def mk_pipeline_def)
  have r0: "ready ?sm [] = [(''a'', mk_step ''a'' ''instant.task'')]"
    by (simp add: sm ready_def deps_of_def mk_step_def)
  have r1: "ready ?sm [''a''] = []"
    by (simp add: sm ready_def deps_of_def mk_step_def)
  have "completed_after ?sm 3 [''a''] = []"
    using r1 by (intro completed_after_stop) simp
  moreover have "completed_after ?sm 3 [] = [''a''] # completed_after ?sm 3 [''a'']"
    using completed_after_step [of "[]" 3 ?sm] r0 by simp
  ultimately have c4: "scheduled ?sm (length (steps_of ex_stuck)) = [''a'']"
    by (simp add: scheduled_def n)
  have hyp: "hasDependencies (steps_of ex_stuck) \<and> length (steps_of ex_stuck) < 4
      \<and> blocked ?sm {''b'', ''c''} \<and> {''b'', ''c''} \<noteq> ({} :: string set)
      \<and> {''b'', ''c''} \<subseteq> set (declared_ids (steps_of ex_stuck))"
    by (simp add: sm blocked_def deps_of_def mk_step_def)
       (simp add: ex_stuck_def run_defs mk_step_def)
  from deadlock_detected [where t = ex_stuck and fuel = 4 and backends = ex_registry
      and B = "{''b'', ''c''}", THEN conjunct2, THEN conjunct2, THEN mp, OF hyp]
  have c5: "\<exists>e s'. dag_loop 4 ex_registry ex_stuck ?sm (init_state ?sm) = Some (Some e, s')
            \<and> {''b'', ''c''} \<inter> terminal s' = {}"
    by blast
  have c6: "processTask 3 ex_registry ex_missing =
     Some \<lparr>outcome = Inl (Error (''Pipeline deadlock: cannot run remaining steps [other.task]. ''
                                 @ ''Check for circular dependencies or missing dependency IDs.'')),
           progress_calls = [50]\<rparr>"
    by (simp add: ex_missing_def run_defs ex_registry_modal Let_def ex_modal_def echo_def
        numeral_3_eq_3)
  show ?thesis using c1 c2 c3 c4 c5 c6 by (intro conjI)
qed

section \<open>Duplicate step ids\<close>

text \<open>
  Claim C10, as the code has it.  When two declared steps have the same id after
  defaulting, the step map collapses them: it has fewer entries than there are declared
  steps, one for each id, holding the last step declared with that id, so that only this
  one can execute, and there is one status record for each id.  The number of terminal
  ids never reaches the declared step count, and \<open>processTask\<close> never returns a
  PipelineResult: with fuel for more iterations than there are steps the run rejects.  Each
  id has reached a terminal state at most once.  If no step has failed, the error is the
  pipeline-deadlock error, listing the task types of the declared steps whose id the
  schedule never completes; otherwise a required step has failed and the error is the one
  recorded for that step.
\<close>

theorem duplicate_ids_never_return:
  assumes dup: "\<not> distinct (declared_ids (steps_of t))" and dag: "hasDependencies (steps_of t)"
  shows "length (build_stepMap (steps_of t)) < length (steps_of t)
     \<and> distinct (map fst (build_stepMap (steps_of t)))
     \<and> (\<forall>i \<in> set (declared_ids (steps_of t)).
           map_of (build_stepMap (steps_of t)) i = Some (last (declared_as (steps_of t) i)))
     \<and> (\<forall>fuel r. processTask fuel backends t = Some r \<longrightarrow> isl (outcome r))
     \<and> (length (steps_of t) < fuel \<longrightarrow>
          (\<exists>e s. dag_loop fuel backends t (build_stepMap (steps_of t))
                    (init_state (build_stepMap (steps_of t))) = Some (Some e, s)
                \<and> processTask fuel backends t = Some \<lparr>outcome = Inl e, progress_calls = progress s\<rparr>
                \<and> length (completed s) + length (failed s) < length (steps_of t)
                \<and> distinct (completed s @ failed s)
                \<and> set (completed s @ failed s) \<subseteq> set (declared_ids (steps_of t))
                \<and> map fst (stepStatuses s) = map fst (build_stepMap (steps_of t))
                \<and> (failed s = [] \<longrightarrow>
                      set (completed s) = set (scheduled (build_stepMap (steps_of t)) (length (steps_of t)))
                      \<and> e = Error (deadlock_text (map task (unresolved (steps_of t)
                               (set (scheduled (build_stepMap (steps_of t)) (length (steps_of t))))))))
                \<and> (failed s \<noteq> [] \<longrightarrow>
                      (\<exists>(i, step) \<in> set (build_stepMap (steps_of t)).
                          \<not> is_optional step \<and> failure_recorded e i s))))"
proof -
  let ?ss = "steps_of t"
  let ?sm = "build_stepMap ?ss"
  let ?n = "length ?ss"
  have d: "distinct (map fst ?sm)" and keys: "set (map fst ?sm) = set (declared_ids ?ss)"
    using build_stepMap_keys [of ?ss] by simp_all
  have inv0: "dag_inv ?sm (init_state ?sm)" by (rule init_state_inv)
  have lt: "length ?sm < ?n" using dup by (rule length_build_stepMap_less)
  have lastd: "\<forall>i \<in> set (declared_ids ?ss). map_of ?sm i = Some (last (declared_as ?ss i))"
    using build_stepMap_last by blast
  have never: "err \<noteq> None \<and> length (completed s) + length (failed s) < ?n"
    if l: "dag_loop fuel backends t ?sm (init_state ?sm) = Some (err, s)" for fuel err s
  proof -
    note post = dag_loop_post [OF l inv0 d]
    have inv: "dag_inv ?sm s" using post by blast
    have c: "length (completed s) + length (failed s) < ?n"
      using dag_inv_count(1) [OF inv d] lt by simp
    have "err = None \<longrightarrow> ?n \<le> length (completed s) + length (failed s)"
      using post by blast
    with c show ?thesis by auto
  qed
  have a: "\<forall>fuel r. processTask fuel backends t = Some r \<longrightarrow> isl (outcome r)"
  proof (intro allI impI)
    fix fuel r
    assume "processTask fuel backends t = Some r"
    then obtain r0 where r0: "processPipelineDAG fuel backends t = Some r0" and r: "r = as_pipeline r0"
      using processTask_dag [OF dag] by auto
    from r0 obtain err s where l: "dag_loop fuel backends t ?sm (init_state ?sm) = Some (err, s)"
      by (auto simp: processPipelineDAG_def split: option.splits)
    then obtain e where "err = Some e" using never [OF l] by auto
    then have "outcome r0 = Inl e" using r0 l by (auto simp: processPipelineDAG_def)
    then show "isl (outcome r)" using r by (simp add: as_pipeline_def)
  qed
  have b: "?n < fuel \<longrightarrow>
          (\<exists>e s. dag_loop fuel backends t ?sm (init_state ?sm) = Some (Some e, s)
                \<and> processTask fuel backends t = Some \<lparr>outcome = Inl e, progress_calls = progress s\<rparr>
                \<and> length (completed s) + length (failed s) < ?n
                \<and> distinct (completed s @ failed s)
                \<and> set (completed s @ failed s) \<subseteq> set (declared_ids ?ss)
                \<and> map fst (stepStatuses s) = map fst ?sm
                \<and> (failed s = [] \<longrightarrow>
                      set (completed s) = set (scheduled ?sm ?n)
                      \<and> e = Error (deadlock_text (map task (unresolved ?ss (set (scheduled ?sm ?n))))))
                \<and> (failed s \<noteq> [] \<longrightarrow>
                      (\<exists>(i, step) \<in> set ?sm. \<not> is_optional step \<and> failure_recorded e i s)))"
  proof
    assume f: "?n < fuel"
    from dag_run_returns [OF f, of backends]
    obtain err s where l: "dag_loop fuel backends t ?sm (init_state ?sm) = Some (err, s)"
      by blast
    note n = never [OF l]
    then obtain e where e: "err = Some e" by auto
    have run: "dag_loop fuel backends t ?sm (init_state ?sm) = Some (Some e, s)"
      using l e by simp
    have inv: "dag_inv ?sm s" using dag_loop_post [OF l inv0 d] by blast
    have once: "distinct (completed s @ failed s)"
      "set (completed s @ failed s) \<subseteq> set (declared_ids ?ss)"
      using inv keys by (auto simp: dag_inv_def terminal_def)
    have ks: "map fst (stepStatuses s) = map fst ?sm"
      using dag_loop_keys [OF l inv0 d] by (simp add: init_state_facts)
    note err = dag_loop_error [OF run inv0 d init_state_facts(1) init_state_facts(5)]
    from dag_loop_schedule [OF l inv0 d init_state_facts(1), of "[]"]
    have sch: "failed s = [] \<longrightarrow> set (completed s) = set (scheduled ?sm ?n)"
      by (auto simp: init_state_facts scheduled_def)
    have dl: "failed s = [] \<longrightarrow>
        e = Error (deadlock_text (map task (unresolved ?ss (set (scheduled ?sm ?n)))))"
    proof
      assume fl: "failed s = []"
      then have "e = Error (deadlock_message (remaining_tasks ?ss s))" using err by auto
      moreover have "terminal s = set (scheduled ?sm ?n)"
        using fl sch by (simp add: terminal_def)
      ultimately show "e = Error (deadlock_text (map task (unresolved ?ss (set (scheduled ?sm ?n)))))"
        by (simp add: deadlock_message_text remaining_tasks_unresolved)
    qed
    have fl: "failed s \<noteq> [] \<longrightarrow>
        (\<exists>(i, step) \<in> set ?sm. \<not> is_optional step \<and> failure_recorded e i s)"
      using err by auto
    have pt: "processTask fuel backends t = Some \<lparr>outcome = Inl e, progress_calls = progress s\<rparr>"
      using processTask_rejects [OF dag run] .
    show "\<exists>e s. dag_loop fuel backends t ?sm (init_state ?sm) = Some (Some e, s)
                \<and> processTask fuel backends t = Some \<lparr>outcome = Inl e, progress_calls = progress s\<rparr>
                \<and> length (completed s) + length (failed s) < ?n
                \<and> distinct (completed s @ failed s)
                \<and> set (completed s @ failed s) \<subseteq> set (declared_ids ?ss)
                \<and> map fst (stepStatuses s) = map fst ?sm
                \<and> (failed s = [] \<longrightarrow>
                      set (completed s) = set (scheduled ?sm ?n)
                      \<and> e = Error (deadlock_text (map task (unresolved ?ss (set (scheduled ?sm ?n))))))
                \<and> (failed s \<noteq> [] \<longrightarrow>
                      (\<exists>(i, step) \<in> set ?sm. \<not> is_optional step \<and> failure_recorded e i s))"
      using run pt n once ks sch dl fl by blast
  qed
  show ?thesis using lt d lastd a b by (intro conjI)
qed

text \<open>
  The claim as it stands fails where the step that the map keeps is required and fails: of
  the two steps declared as \<open>a\<close> the map keeps the second, its execution fails, and the run
  rejects with the error of the backend, not with the pipeline-deadlock error.
\<close>

theorem duplicate_ids_counterexample:
  "\<not> distinct (declared_ids (steps_of ex_duplicate))
   \<and> processTask 3 ex_registry ex_duplicate =
       Some \<lparr>outcome = Inl (Error ''Always fails''), progress_calls = []\<rparr>"
  by (simp add: ex_duplicate_def run_defs ex_registry_modal numeral_3_eq_3 Let_def
      ex_modal_def echo_def)

theorem duplicate_ids_never_return_witness:
  "\<not> distinct (declared_ids (steps_of ex_twice)) \<and> hasDependencies (steps_of ex_twice)
   \<and> length (build_stepMap (steps_of ex_twice)) < length (steps_of ex_twice)
   \<and> map_of (build_stepMap (steps_of ex_twice)) ''a'' = Some (mk_step ''a'' ''other.task'')
   \<and> (\<exists>e s. dag_loop 3 ex_registry ex_twice (build_stepMap (steps_of ex_twice))
                (init_state (build_stepMap (steps_of ex_twice))) = Some (Some e, s)
            \<and> map fst (stepStatuses s) = [''a''])
   \<and> processTask 3 ex_registry ex_twice =
       Some \<lparr>outcome = Inl (Error (''Pipeline deadlock: cannot run remaining steps []. ''
                                   @ ''Check for circular dependencies or missing dependency IDs.'')),
             progress_calls = [50]\<rparr>
   \<and> (\<exists>e s. dag_loop 3 ex_registry ex_duplicate (build_stepMap (steps_of ex_duplicate))
                (init_state (build_stepMap (steps_of ex_duplicate))) = Some (Some e, s)
            \<and> processTask 3 ex_registry ex_duplicate
                = Some \<lparr>outcome = Inl e, progress_calls = progress s\<rparr>
            \<and> failure_recorded e ''a'' s)"
proof -
  have ss: "steps_of ex_twice = [mk_step ''a'' ''instant.task'', mk_step ''a'' ''other.task'']"
    by (simp add: ex_twice_def steps_of_def mk_pipeline_def)
  have ids: "declared_ids (steps_of ex_twice) = [''a'', ''a'']"
    by (simp add: ss declared_ids_def enumerate_eq_zip upt_conv_Cons stepIdOf_def is_set_def
        mk_step_def)
  have sm: "build_stepMap (steps_of ex_twice) = [(''a'', mk_step ''a'' ''other.task'')]"
    by (simp add: ss build_stepMap_def enumerate_eq_zip upt_conv_Cons stepIdOf_def is_set_def
        mk_step_def)
  have h1: "\<not> distinct (declared_ids (steps_of ex_twice))" by (simp add: ids)
  have h2: "hasDependencies (steps_of ex_twice)"
    by (simp add: ss hasDependencies_def is_set_def mk_step_def)
  have l: "length (steps_of ex_twice) < 3" by (simp add: ss)
  note th = duplicate_ids_never_return [OF h1 h2, where fuel = 3 and backends = ex_registry]
  have c3: "length (build_stepMap (steps_of ex_twice)) < length (steps_of ex_twice)"
    using th by (rule conjunct1)
  have "\<forall>i \<in> set (declared_ids (steps_of ex_twice)).
           map_of (build_stepMap (steps_of ex_twice)) i = Some (last (declared_as (steps_of ex_twice) i))"
    using th by blast
  then have "map_of (build_stepMap (steps_of ex_twice)) ''a''
      = Some (last (declared_as (steps_of ex_twice) ''a''))"
    by (simp add: ids)
  then have c4: "map_of (build_stepMap (steps_of ex_twice)) ''a'' = Some (mk_step ''a'' ''other.task'')"
    by (simp add: declared_as_def ids) (simp add: ss)
  have "\<exists>e s. dag_loop 3 ex_registry ex_twice (build_stepMap (steps_of ex_twice))
                (init_state (build_stepMap (steps_of ex_twice))) = Some (Some e, s)
            \<and> map fst (stepStatuses s) = map fst (build_stepMap (steps_of ex_twice))"
    using th l by blast
  then have c5: "\<exists>e s. dag_loop 3 ex_registry ex_twice (build_stepMap (steps_of ex_twice))
                (init_state (build_stepMap (steps_of ex_twice))) = Some (Some e, s)
            \<and> map fst (stepStatuses s) = [''a'']"
    by (simp add: sm)
  have ev: "processTask 3 ex_registry ex_twice =
       Some \<lparr>outcome = Inl (Error (''Pipeline deadlock: cannot run remaining steps []. ''
                                   @ ''Check for circular dependencies or missing dependency IDs.'')),
             progress_calls = [50]\<rparr>"
    by (simp add: ex_twice_def run_defs ex_registry_modal numeral_3_eq_3 Let_def
        ex_modal_def echo_def)
  have ss2: "steps_of ex_duplicate = [mk_step ''a'' ''instant.task'', mk_step ''a'' ''failing.task'']"
    by (simp add: ex_duplicate_def steps_of_def mk_pipeline_def)
  have sm2: "build_stepMap (steps_of ex_duplicate) = [(''a'', mk_step ''a'' ''failing.task'')]"
    by (simp add: ss2 build_stepMap_def enumerate_eq_zip upt_conv_Cons stepIdOf_def is_set_def
        mk_step_def)
  have g1: "\<not> distinct (declared_ids (steps_of ex_duplicate))"
    by (simp add: ss2 declared_ids_def enumerate_eq_zip upt_conv_Cons stepIdOf_def is_set_def
        mk_step_def)
  have g2: "hasDependencies (steps_of ex_duplicate)"
    by (simp add: ss2 hasDependencies_def is_set_def mk_step_def)
  have g3: "length (steps_of ex_duplicate) < 3" by (simp add: ss2)
  have nodl: "processTask 3 ex_registry ex_duplicate =
       Some \<lparr>outcome = Inl (Error ''Always fails''), progress_calls = []\<rparr>"
    by (simp add: ex_duplicate_def run_defs ex_registry_modal numeral_3_eq_3 Let_def
        ex_modal_def echo_def)
  from duplicate_ids_never_return [OF g1 g2, where fuel = 3 and backends = ex_registry] g3
  obtain e s where run: "dag_loop 3 ex_registry ex_duplicate (build_stepMap (steps_of ex_duplicate))
                (init_state (build_stepMap (steps_of ex_duplicate))) = Some (Some e, s)"
    and pt: "processTask 3 ex_registry ex_duplicate = Some \<lparr>outcome = Inl e, progress_calls = progress s\<rparr>"
    and dl: "failed s = [] \<longrightarrow>
                e = Error (deadlock_text (map task (unresolved (steps_of ex_duplicate)
                   (set (scheduled (build_stepMap (steps_of ex_duplicate))
                          (length (steps_of ex_duplicate)))))))"
    and fl: "failed s \<noteq> [] \<longrightarrow>
                (\<exists>(i, step) \<in> set (build_stepMap (steps_of ex_duplicate)).
                    \<not> is_optional step \<and> failure_recorded e i s)"
    by blast
  have e: "e = Error ''Always fails''" using pt nodl by simp
  have "failed s \<noteq> []"
  proof
    assume "failed s = []"
    with dl e show False by (simp add: deadlock_text_def)
  qed
  with fl have "failure_recorded e ''a'' s" by (simp add: sm2)
  with run pt have c7: "\<exists>e s. dag_loop 3 ex_registry ex_duplicate (build_stepMap (steps_of ex_duplicate))
                (init_state (build_stepMap (steps_of ex_duplicate))) = Some (Some e, s)
            \<and> processTask 3 ex_registry ex_duplicate
                = Some \<lparr>outcome = Inl e, progress_calls = progress s\<rparr>
            \<and> failure_recorded e ''a'' s"
    by blast
  show ?thesis using h1 h2 c3 c4 c5 ev c7 by (intro conjI)
qed

section \<open>Progress reports\<close>

lemma reports_sorted:
  "0 < n \<Longrightarrow> sorted cs \<Longrightarrow> sorted (map (\<lambda>c. round_percent c n) cs)"
  by (induction cs) (auto simp: round_percent_mono)

lemma seq_step_progress:
  "seq_step backends t n i step s = (err, s') \<Longrightarrow>
   q_progress s' = q_progress s @ [round_percent i n]"
  unfolding seq_step_def seq_run_def seq_finish_def Let_def
  by (auto split: if_splits sum.splits prod.splits)

lemma seq_loop_progress:
  "seq_loop backends t n i ss s = (err, s') \<Longrightarrow>
   \<exists>k. k \<le> length ss \<and> q_progress s' = q_progress s @ map (\<lambda>j. round_percent j n) [i..<i + k]
      \<and> (err = None \<longrightarrow> k = length ss)"
proof (induction ss arbitrary: i s)
  case Nil
  then show ?case by simp
next
  case (Cons step ss)
  obtain e1 s1 where st: "seq_step backends t n i step s = (e1, s1)"
    by (cases "seq_step backends t n i step s")
  have p1: "q_progress s1 = q_progress s @ [round_percent i n]"
    using seq_step_progress [OF st] .
  show ?case
  proof (cases e1)
    case (Some e)
    then have "err = Some e" "s' = s1" using Cons.prems st by simp_all
    then show ?thesis using p1 by (intro exI [of _ 1]) simp
  next
    case None
    then have "seq_loop backends t n (Suc i) ss s1 = (err, s')" using Cons.prems st by simp
    from Cons.IH [OF this] obtain k where k: "k \<le> length ss"
      "q_progress s' = q_progress s1 @ map (\<lambda>j. round_percent j n) [Suc i..<Suc i + k]"
      "err = None \<longrightarrow> k = length ss"
      by blast
    have "[i..<i + Suc k] = i # [Suc i..<Suc i + k]" by (simp add: upt_conv_Cons)
    then show ?thesis using k p1 by (intro exI [of _ "Suc k"]) simp
  qed
qed

text \<open>Fewer than 200 steps: the percentage of a proper part stays below 100, as
  \<open>(n - 1) / n\<close> is at most 198/199, which gives 99.\<close>

lemma round_percent_below:
  assumes "i < n" "n < 200"
  shows "round_percent i n < 100"
proof -
  have "i * 199 \<le> 198 * n" using assms by simp
  then have "dle (js_divide i n) (js_divide 198 199)"
    unfolding js_divide_def using assms by (intro to_double_mono) simp_all
  then have "Math_round (js_times (js_divide i n) 100) \<le> Math_round (js_times (js_divide 198 199) 100)"
    by (intro Math_round_mono js_times_mono)
  moreover have "Math_round (js_times (js_divide 198 199) 100) = 99"
    by (simp add: double_defs)
  ultimately show ?thesis by (simp add: round_percent_def)
qed

lemma percent_list:
  assumes "sorted cs" "list_all (\<lambda>c. c \<le> n) cs" "0 < n"
  shows "sorted (map (\<lambda>c. round_percent c n) cs)"
    and "list_all (\<lambda>p. 0 \<le> p \<and> p \<le> 100) (map (\<lambda>c. round_percent c n) cs)"
  using assms by (auto simp: reports_sorted list_all_iff round_percent_range)

lemma seq_progress:
  assumes "steps_of t \<noteq> []"
  shows "\<exists>k. k \<le> length (steps_of t)
           \<and> progress_calls (processPipelineSequential backends t)
               = map (\<lambda>i. round_percent i (length (steps_of t))) [0..<k]
           \<and> (isl (outcome (processPipelineSequential backends t)) \<or> k = length (steps_of t))"
proof -
  let ?n = "length (steps_of t)"
  let ?seq = "processPipelineSequential backends t"
  let ?s0 = "\<lparr>q_stepResults = [], q_stepStatuses = [], q_now = 0, q_progress = []\<rparr>"
  obtain err s where l: "seq_loop backends t ?n 0 (steps_of t) ?s0 = (err, s)"
    by (cases "seq_loop backends t ?n 0 (steps_of t) ?s0")
  from seq_loop_progress [OF l] obtain k where k: "k \<le> ?n"
    "q_progress s = map (\<lambda>j. round_percent j ?n) [0..<k]" "err = None \<longrightarrow> k = ?n"
    by auto
  have pc: "progress_calls ?seq = q_progress s"
    using l by (cases err) (simp_all add: processPipelineSequential_def)
  have oc: "isl (outcome ?seq) \<or> err = None"
    using l by (cases err) (simp_all add: processPipelineSequential_def)
  show ?thesis
    using k pc oc by (intro exI [of _ k]) auto
qed

lemma dag_progress:
  assumes "steps_of t \<noteq> []" and r: "processPipelineDAG fuel backends t = Some r"
  shows "\<exists>cs. progress_calls r = map (\<lambda>c. round_percent c (length (steps_of t))) cs
               \<and> sorted cs \<and> list_all (\<lambda>c. c \<le> length (steps_of t)) cs
               \<and> (isl (outcome r) \<or> cs \<noteq> [] \<and> last cs = length (steps_of t))"
proof -
  let ?n = "length (steps_of t)"
  have n: "0 < ?n" using assms(1) by simp
  let ?sm = "build_stepMap (steps_of t)"
  have d: "distinct (map fst ?sm)" using build_stepMap_keys [of "steps_of t"] by simp
  from r obtain e s' where lp: "dag_loop fuel backends t ?sm (init_state ?sm) = Some (e, s')"
    by (auto simp: processPipelineDAG_def split: option.splits)
  have pr: "progress_calls r = progress s'"
    using r lp by (cases e) (auto simp: processPipelineDAG_def Let_def)
  have ocd: "isl (outcome r) \<or> e = None"
    using r lp by (cases e) (auto simp: processPipelineDAG_def Let_def)
  note post = dag_loop_post [OF lp init_state_inv d]
  have inv: "dag_inv ?sm s'" using post by blast
  have bound: "length (completed s') \<le> ?n"
    using dag_inv_count(2) [OF inv d] length_build_stepMap [of "steps_of t"] by simp
  from post obtain cs where cs: "progress s' = progress (init_state ?sm) @ map (\<lambda>c. round_percent c ?n) cs"
    "sorted cs" "list_all (\<lambda>c. length (completed (init_state ?sm)) \<le> c \<and> c \<le> length (completed s')) cs"
    "e = None \<longrightarrow> (if cs = [] then s' = init_state ?sm else last cs = length (completed s'))"
    by blast
  have p: "progress_calls r = map (\<lambda>c. round_percent c ?n) cs"
    using cs(1) pr by (simp add: init_state_def)
  have lc: "list_all (\<lambda>c. c \<le> ?n) cs" using cs(3) bound by (auto simp: list_all_iff)
  have fin: "isl (outcome r) \<or> cs \<noteq> [] \<and> last cs = ?n"
  proof (cases "e = None")
    case False
    then show ?thesis using ocd by blast
  next
    case True
    have f: "failed s' = failed (init_state ?sm)" using post True by blast
    have "?n \<le> length (completed s') + length (failed s')" using post True by blast
    then have full: "length (completed s') = ?n" using f bound by (simp add: init_state_def)
    have ne: "cs \<noteq> []"
    proof
      assume "cs = []"
      then have "s' = init_state ?sm" using cs(4) True by simp
      then show False using full n by (simp add: init_state_def)
    qed
    then have "last cs = ?n" using cs(4) True full by simp
    then show ?thesis using ne by simp
  qed
  show ?thesis
    using p cs(2) lc fin by (intro exI [of _ cs]) simp
qed

lemma dag_schedule:
  assumes r: "processPipelineDAG fuel backends t = Some r"
  shows "\<exists>m. progress_calls r =
            map (\<lambda>c. round_percent (length c) (length (steps_of t)))
              (take m (completed_after (build_stepMap (steps_of t)) (length (steps_of t)) []))
          \<and> (\<not> isl (outcome r) \<longrightarrow>
               m = length (completed_after (build_stepMap (steps_of t)) (length (steps_of t)) []))"
proof -
  let ?sm = "build_stepMap (steps_of t)"
  have d: "distinct (map fst ?sm)" using build_stepMap_keys [of "steps_of t"] by simp
  from r obtain e s' where lp: "dag_loop fuel backends t ?sm (init_state ?sm) = Some (e, s')"
    by (auto simp: processPipelineDAG_def split: option.splits)
  have pr: "progress_calls r = progress s'"
    using r lp by (cases e) (auto simp: processPipelineDAG_def Let_def)
  have ocd: "\<not> isl (outcome r) \<longrightarrow> e = None"
    using r lp by (cases e) (auto simp: processPipelineDAG_def Let_def)
  have fl: "e = None \<longrightarrow> failed s' = []"
    using dag_loop_post [OF lp init_state_inv d] by (auto simp: init_state_facts)
  from dag_loop_schedule [OF lp init_state_inv d init_state_facts(1), of "[]"]
  obtain m where m: "progress s' =
        map (\<lambda>c. round_percent (length c) (length (steps_of t)))
          (take m (completed_after ?sm (length (steps_of t)) []))"
      "failed s' = [] \<longrightarrow> m = length (completed_after ?sm (length (steps_of t)) [])"
    by (auto simp: init_state_facts)
  show ?thesis using m pr ocd fl by (intro exI [of _ m]) simp
qed

text \<open>
  Claim C4, as the code has it.  For every pipeline execution (DAG or sequential) the
  values passed to the progress callback are \<open>Math.round((c / n) * 100)\<close> for a
  non-decreasing sequence of counts \<open>c \<le> n\<close> (\<open>n\<close> the number of declared steps), hence a
  non-decreasing sequence of integers in [0,100].  The sequential runner reports the number
  of steps already processed before each step, so it reports the percentages of
  \<open>0, 1, \<dots>\<close> and never 100 when there are fewer than 200 steps.  The DAG runner reports
  after each tick that does not throw the number of steps completed so far, which is what
  the schedule of the pipeline has completed by then; a DAG run that returns a result has
  gone through the whole schedule and its last report is 100.
\<close>

theorem progress_reports:
  assumes "steps_of t \<noteq> []"
  shows "(\<exists>k. k \<le> length (steps_of t)
           \<and> progress_calls (processPipelineSequential backends t)
               = map (\<lambda>i. round_percent i (length (steps_of t))) [0..<k]
           \<and> (isl (outcome (processPipelineSequential backends t)) \<or> k = length (steps_of t)))
     \<and> sorted (progress_calls (processPipelineSequential backends t))
     \<and> list_all (\<lambda>p. 0 \<le> p \<and> p \<le> 100) (progress_calls (processPipelineSequential backends t))
     \<and> (length (steps_of t) < 200 \<longrightarrow>
          100 \<notin> set (progress_calls (processPipelineSequential backends t)))
     \<and> (\<forall>r. processPipelineDAG fuel backends t = Some r \<longrightarrow>
          (\<exists>m. progress_calls r =
                  map (\<lambda>c. round_percent (length c) (length (steps_of t)))
                    (take m (completed_after (build_stepMap (steps_of t)) (length (steps_of t)) []))
              \<and> (\<not> isl (outcome r) \<longrightarrow>
                   m = length (completed_after (build_stepMap (steps_of t)) (length (steps_of t)) [])))
          \<and> sorted (progress_calls r)
          \<and> list_all (\<lambda>p. 0 \<le> p \<and> p \<le> 100) (progress_calls r)
          \<and> (isl (outcome r) \<or> progress_calls r \<noteq> [] \<and> last (progress_calls r) = 100))"
proof -
  let ?n = "length (steps_of t)"
  let ?seq = "processPipelineSequential backends t"
  have n: "0 < ?n" using assms by simp
  from seq_progress [OF assms, of backends] obtain k where k: "k \<le> ?n"
    "progress_calls ?seq = map (\<lambda>i. round_percent i ?n) [0..<k]"
    "isl (outcome ?seq) \<or> k = ?n"
    by blast
  have seq1: "\<exists>k. k \<le> ?n \<and> progress_calls ?seq = map (\<lambda>i. round_percent i ?n) [0..<k]
           \<and> (isl (outcome ?seq) \<or> k = ?n)"
    using k by blast
  have so: "sorted [0..<k]" by simp
  have la: "list_all (\<lambda>c. c \<le> ?n) [0..<k]" using k(1) by (simp add: list_all_iff)
  have seq2: "sorted (progress_calls ?seq)"
    unfolding k(2) using so la n by (rule percent_list(1))
  have seq3: "list_all (\<lambda>p. 0 \<le> p \<and> p \<le> 100) (progress_calls ?seq)"
    unfolding k(2) using so la n by (rule percent_list(2))
  have seq4: "?n < 200 \<longrightarrow> 100 \<notin> set (progress_calls ?seq)"
  proof
    assume small: "?n < 200"
    show "100 \<notin> set (progress_calls ?seq)"
    proof
      assume "100 \<in> set (progress_calls ?seq)"
      then obtain i where i: "i < k" "round_percent i ?n = 100" unfolding k(2) by auto
      then have "i < ?n" using k(1) by simp
      from round_percent_below [OF this small] i(2) show False by simp
    qed
  qed
  have dag: "\<forall>r. processPipelineDAG fuel backends t = Some r \<longrightarrow>
          (\<exists>m. progress_calls r =
                  map (\<lambda>c. round_percent (length c) ?n)
                    (take m (completed_after (build_stepMap (steps_of t)) ?n []))
              \<and> (\<not> isl (outcome r) \<longrightarrow>
                   m = length (completed_after (build_stepMap (steps_of t)) ?n [])))
          \<and> sorted (progress_calls r)
          \<and> list_all (\<lambda>p. 0 \<le> p \<and> p \<le> 100) (progress_calls r)
          \<and> (isl (outcome r) \<or> progress_calls r \<noteq> [] \<and> last (progress_calls r) = 100)"
  proof (intro allI impI)
    fix r
    assume r: "processPipelineDAG fuel backends t = Some r"
    from dag_progress [OF assms r] obtain cs where cs:
      "progress_calls r = map (\<lambda>c. round_percent c ?n) cs" "sorted cs"
      "list_all (\<lambda>c. c \<le> ?n) cs" "isl (outcome r) \<or> cs \<noteq> [] \<and> last cs = ?n"
      by blast
    note d1 = dag_schedule [OF r]
    have d2: "sorted (progress_calls r)"
      unfolding cs(1) using cs(2,3) n by (rule percent_list(1))
    have d3: "list_all (\<lambda>p. 0 \<le> p \<and> p \<le> 100) (progress_calls r)"
      unfolding cs(1) using cs(2,3) n by (rule percent_list(2))
    have d4: "isl (outcome r) \<or> progress_calls r \<noteq> [] \<and> last (progress_calls r) = 100"
    proof (cases "isl (outcome r)")
      case True
      then show ?thesis by simp
    next
      case False
      then have ne: "cs \<noteq> []" and l: "last cs = ?n" using cs(4) by simp_all
      have "last (progress_calls r) = round_percent ?n ?n"
        unfolding cs(1) using ne l by (simp add: last_map)
      then show ?thesis using ne cs(1) round_percent_full [OF n] by simp
    qed
    show "(\<exists>m. progress_calls r =
                  map (\<lambda>c. round_percent (length c) ?n)
                    (take m (completed_after (build_stepMap (steps_of t)) ?n []))
              \<and> (\<not> isl (outcome r) \<longrightarrow>
                   m = length (completed_after (build_stepMap (steps_of t)) ?n [])))
          \<and> sorted (progress_calls r)
          \<and> list_all (\<lambda>p. 0 \<le> p \<and> p \<le> 100) (progress_calls r)
          \<and> (isl (outcome r) \<or> progress_calls r \<noteq> [] \<and> last (progress_calls r) = 100)"
      using d1 d2 d3 d4 by (intro conjI)
  qed
  show ?thesis
    using seq1 seq2 seq3 seq4 dag by (intro conjI)
qed

text \<open>
  The claim as it stands fails on the last report of the DAG runner: a pipeline of one step
  that completes reports 100.
\<close>

theorem progress_final_100_counterexample:
  "map_option progress_calls (processTask 2 ex_registry ex_one) = Some [100]"
  by (simp add: ex_one_def run_defs ex_registry_modal numeral_2_eq_2 Let_def ex_modal_def echo_def)

theorem progress_reports_witness:
  "steps_of ex_linear \<noteq> []
   \<and> progress_calls (processPipelineSequential ex_registry ex_linear) = [0, 50]
   \<and> sorted (progress_calls (processPipelineSequential ex_registry ex_linear))
   \<and> completed_after (build_stepMap (steps_of ex_linear)) (length (steps_of ex_linear)) []
       = [[''a''], [''a'', ''b'']]
   \<and> map_option progress_calls (processPipelineDAG 3 ex_registry ex_linear) = Some [50, 100]"
proof -
  let ?sm = "build_stepMap (steps_of ex_linear)"
  have h: "steps_of ex_linear \<noteq> []" by (simp add: ex_linear_def run_defs)
  have n: "length (steps_of ex_linear) = 2" by (simp add: ex_linear_def run_defs)
  have sm: "?sm = [(''a'', (mk_step ''a'' ''download'')\<lparr>input := Some [(''url'', JStr ''{{payload.url}}'')]\<rparr>),
                   (''b'', (mk_step ''b'' ''transcribe'')\<lparr>dependsOn := Some [''a'']\<rparr>)]"
    by (simp add: ex_linear_def run_defs)
  have r0: "ready ?sm [] = [(''a'', (mk_step ''a'' ''download'')\<lparr>input := Some [(''url'', JStr ''{{payload.url}}'')]\<rparr>)]"
    by (simp add: sm ready_def deps_of_def mk_step_def)
  have r1: "ready ?sm [''a''] = [(''b'', (mk_step ''b'' ''transcribe'')\<lparr>dependsOn := Some [''a'']\<rparr>)]"
    by (simp add: sm ready_def deps_of_def mk_step_def)
  have "completed_after ?sm 2 [''a'', ''b''] = []"
    by (intro completed_after_stop) simp
  moreover have "completed_after ?sm 2 [''a''] = [''a'', ''b''] # completed_after ?sm 2 [''a'', ''b'']"
    using completed_after_step [of "[''a'']" 2 ?sm] r1 by simp
  moreover have "completed_after ?sm 2 [] = [''a''] # completed_after ?sm 2 [''a'']"
    using completed_after_step [of "[]" 2 ?sm] r0 by simp
  ultimately have ca2: "completed_after ?sm 2 [] = [[''a''], [''a'', ''b'']]"
    by simp
  then have ca: "completed_after ?sm (length (steps_of ex_linear)) [] = [[''a''], [''a'', ''b'']]"
    by (simp add: n)
  have s: "progress_calls (processPipelineSequential ex_registry ex_linear) = [0, 50]"
    by (simp add: ex_linear_def run_defs seq_defs template_defs ex_registry_modal Let_def
        ex_modal_def echo_def string_of_nat.simps)
  have d: "processPipelineDAG 3 ex_registry ex_linear \<noteq> None"
    by (simp add: ex_linear_def run_defs template_defs ex_registry_modal numeral_3_eq_3 Let_def
        ex_modal_def echo_def)
  then obtain r where r: "processPipelineDAG 3 ex_registry ex_linear = Some r" by auto
  have ok: "\<not> isl (outcome r)"
    using r
    by (simp add: ex_linear_def run_defs template_defs ex_registry_modal numeral_3_eq_3 Let_def
        ex_modal_def echo_def)
       auto
  note th = progress_reports [OF h, of ex_registry 3]
  from th r ok have "progress_calls r =
      map (\<lambda>c. round_percent (length c) (length (steps_of ex_linear)))
        (completed_after ?sm (length (steps_of ex_linear)) [])"
    by auto
  then have "progress_calls r = [round_percent (Suc 0) 2, round_percent (Suc (Suc 0)) 2]"
    by (simp add: ca2 n)
  then have "progress_calls r = [50, 100]"
    by (simp add: numeral_2_eq_2 round_percent_counts)
  then have dd: "map_option progress_calls (processPipelineDAG 3 ex_registry ex_linear) = Some [50, 100]"
    using r by simp
  have so: "sorted (progress_calls (processPipelineSequential ex_registry ex_linear))"
    using th by blast
  show ?thesis using h s so ca dd by (intro conjI)
qed

section \<open>Durations of terminal steps\<close>

text \<open>
  Claim C5 fails in the DAG runner.  A step skipped by its \<open>runWhen\<close> condition ends with
  status \<open>skipped\<close> and neither a duration nor a completion time, where the sequential
  runner sets both on the same skip.
\<close>

theorem dag_skip_has_no_duration:
  "map_option timings (processPipelineDAG 2 ex_registry ex_on_demand) = Some [(Skipped, None, None, None)]
   \<and> timings (processPipelineSequential ex_registry ex_on_demand) = [(Skipped, Some 0, Some 0, Some 0)]"
  by (simp add: ex_on_demand_def timings_def run_defs seq_defs numeral_2_eq_2 Let_def
      string_of_nat.simps)

end
